theory Spec2Isabelle
  imports Complex_Main "HOL-Library.Extended_Nat"
begin

section \<open>JavaScript numbers\<close>

text \<open>
  A JavaScript number is an IEEE 754 binary64 value. \<open>fl\<close> rounds a real to the nearest
  value with a significand of 53 bits whose last bit weighs at least \<open>2^-1074\<close>, ties to
  the even significand, which is what every arithmetic operation of the language does
  to its exact result; below the normal range this is the gradual underflow, down to 0.
  \<open>fl\<close> does not overflow: \<open>rnd\<close> below adds the infinities, for the operations whose
  result can reach the overflow threshold \<open>2^1024 - 2^970\<close>. A zero is the positive zero.
\<close>

function bit_length :: "int \<Rightarrow> nat" where
  "bit_length n = (if n \<le> 0 then 0 else Suc (bit_length (n div 2)))"
  by pat_completeness auto
termination
  by (relation "measure nat") auto

declare bit_length.simps [simp del]

definition pow2 :: "int \<Rightarrow> real" where
  "pow2 e = (if 0 \<le> e then 2 ^ nat e else 1 / 2 ^ nat (- e))"

text \<open>The exponent of the power of two at or below a positive real.\<close>

definition ilog2 :: "real \<Rightarrow> int" where
  "ilog2 a =
     (if 1 \<le> a then int (bit_length \<lfloor>a\<rfloor>) - 1
      else - int (bit_length (\<lceil>1 / a\<rceil> - 1)))"

definition round_half_even :: "real \<Rightarrow> int" where
  "round_half_even q =
     (let f = \<lfloor>q\<rfloor>; d = q - of_int f
      in if d < 1 / 2 then f
         else if d > 1 / 2 then f + 1
         else if even f then f else f + 1)"

definition fl :: "real \<Rightarrow> real" where
  "fl x =
     (if x = 0 then 0
      else (let e = max (ilog2 \<bar>x\<bar> - 52) (- 1074)
            in sgn x * of_int (round_half_even (\<bar>x\<bar> / pow2 e)) * pow2 e))"

text \<open>The quotient of two numbers whose magnitude stays below the overflow threshold.\<close>

definition fdiv :: "real \<Rightarrow> real \<Rightarrow> real" where
  "fdiv x y = fl (x / y)"

text \<open>
  A number that is not \<open>NaN\<close>, and the rounding of an exact result with overflow to an
  infinity.
\<close>

datatype number = Minus_Infinity | Num real | Plus_Infinity

definition overflow_threshold :: int where
  "overflow_threshold = 2 ^ 1024 - 2 ^ 970"

definition rnd :: "real \<Rightarrow> number" where
  "rnd x =
     (if x \<ge> of_int overflow_threshold then Plus_Infinity
      else if x \<le> - of_int overflow_threshold then Minus_Infinity
      else Num (fl x))"

text \<open>
  \<open>x / y\<close> for finite \<open>x\<close> and \<open>y\<close>, the divisor not negative: \<open>None\<close> is \<open>NaN\<close>, the value of
  \<open>0 / 0\<close>; a divisor of 0 gives the infinity with the sign of \<open>x\<close>.
\<close>

definition num_div :: "real \<Rightarrow> real \<Rightarrow> number option" where
  "num_div x y =
     (if y = 0
      then (if x = 0 then None else Some (if x > 0 then Plus_Infinity else Minus_Infinity))
      else Some (rnd (x / y)))"

text \<open>\<open>r - y\<close> for a finite \<open>y\<close>: an infinity stays what it is.\<close>

definition num_sub :: "number \<Rightarrow> real \<Rightarrow> number" where
  "num_sub r y =
     (case r of
        Num x \<Rightarrow> rnd (x - y)
      | Plus_Infinity \<Rightarrow> Plus_Infinity
      | Minus_Infinity \<Rightarrow> Minus_Infinity)"

text \<open>
  \<open>Math.max(0, Math.round(d))\<close>: \<open>Math.round\<close> gives the nearest integer, a half rounded
  up, as \<open>round\<close> does, and leaves an infinity as it is. The result is a natural number
  or \<open>Infinity\<close>.
\<close>

definition max0_round :: "number \<Rightarrow> enat" where
  "max0_round d =
     (case d of
        Num x \<Rightarrow> enat (nat (max 0 (round x)))
      | Plus_Infinity \<Rightarrow> \<infinity>
      | Minus_Infinity \<Rightarrow> 0)"

text \<open>
  The number that an integer becomes: itself up to \<open>2^53\<close>, the nearest binary64 value
  beyond, and an infinity from the overflow threshold on.
\<close>

datatype js_integer = NotANumber | Infinity bool | Finite int

definition to_double :: "int \<Rightarrow> js_integer" where
  "to_double v =
     (if \<bar>v\<bar> \<le> 2 ^ 53 then Finite v
      else if \<bar>v\<bar> \<ge> 2 ^ 1024 - 2 ^ 970 then Infinity (v < 0)
      else Finite \<lfloor>fl (of_int v)\<rfloor>)"

text \<open>
  \<open>p++\<close> on a loop counter that holds an integer: the sum is rounded, so from \<open>2^53\<close> on
  the counter can stay where it is.
\<close>

definition js_succ :: "int \<Rightarrow> int" where
  "js_succ p = (case to_double (p + 1) of Finite q \<Rightarrow> q | _ \<Rightarrow> p)"

section \<open>Strings\<close>

text \<open>
  A \<open>string\<close> is a JavaScript string whose code units are all below 256, one \<open>char\<close> per
  code unit. White space is what \<open>String.prototype.trim\<close>, \<open>parseInt\<close> and the
  regular-expression class \<open>\s\<close> accept among these: tab, line feed, vertical tab, form
  feed, carriage return, space and the no-break space.
\<close>

definition is_space :: "char \<Rightarrow> bool" where
  "is_space c \<longleftrightarrow>
     c \<in> set [CHR 0x09, CHR 0x0A, CHR 0x0B, CHR 0x0C, CHR 0x0D, CHR 0x20, CHR 0xA0]"

definition is_digit :: "char \<Rightarrow> bool" where
  "is_digit c \<longleftrightarrow> c \<in> set ''0123456789''"

text \<open>\<open>s.trim()\<close>\<close>

definition trim :: "string \<Rightarrow> string" where
  "trim s = rev (dropWhile is_space (rev (dropWhile is_space s)))"

text \<open>\<open>s.split(d)\<close> for a one-character separator: the empty string gives one empty piece.\<close>

fun split_on :: "char \<Rightarrow> string \<Rightarrow> string list" where
  "split_on d [] = [[]]"
| "split_on d (c # cs) =
     (if c = d then [] # split_on d cs
      else (case split_on d cs of
              [] \<Rightarrow> [[c]]
            | w # ws \<Rightarrow> (c # w) # ws))"

text \<open>The value of a run of decimal digits, most significant first.\<close>

definition digit_val :: "char \<Rightarrow> int" where
  "digit_val c = of_char c - 48"

definition digits_value :: "string \<Rightarrow> int" where
  "digits_value ds = foldl (\<lambda>a c. 10 * a + digit_val c) 0 ds"

text \<open>
  \<open>parseInt(s, 10)\<close>: leading white space is skipped, one sign is accepted, then the
  longest run of decimal digits is read and whatever follows is ignored; with no digit
  the result is \<open>NaN\<close>. The result is a number, so the integer that the digits denote is
  rounded to the nearest binary64 value.
\<close>

definition parseInt10 :: "string \<Rightarrow> js_integer" where
  "parseInt10 s =
     (let t = dropWhile is_space s;
          (neg, u) = (case t of
                        c # r \<Rightarrow> if c = CHR ''-'' then (True, r)
                                 else if c = CHR ''+'' then (False, r)
                                 else (False, t)
                      | [] \<Rightarrow> (False, t));
          ds = takeWhile is_digit u
      in if ds = [] then NotANumber
         else (case to_double (digits_value ds) of
                 Finite v \<Rightarrow> Finite (if neg then - v else v)
               | Infinity b \<Rightarrow> Infinity neg
               | NotANumber \<Rightarrow> NotANumber))"

text \<open>
  \<open>chunk.match(/^(\d+)\s*-\s*(\d+)$/)\<close>: the two captured digit runs, or \<open>None\<close> when the
  chunk has another shape. The three character classes are disjoint, so the greedy
  match is the only one.
\<close>

definition match_range :: "string \<Rightarrow> (string \<times> string) option" where
  "match_range chunk =
     (let a = takeWhile is_digit chunk;
          r1 = dropWhile is_space (dropWhile is_digit chunk)
      in if a = [] then None
         else (case r1 of
                 [] \<Rightarrow> None
               | c # r2 \<Rightarrow>
                   if c \<noteq> CHR ''-'' then None
                   else (let b = dropWhile is_space r2
                         in if b \<noteq> [] \<and> list_all is_digit b then Some (a, b) else None)))"

section \<open>Page ranges\<close>

text \<open>
  \<open>parsePageRange(rangeStr, totalPages)\<close> of \<open>documentConverter.js\<close>. The JavaScript
  \<open>Set\<close> is a duplicate-free list in insertion order; \<open>set_add\<close> is \<open>Set.prototype.add\<close>.
  The test \<open>!totalPages || p <= totalPages\<close> has no upper bound when \<open>totalPages\<close> is
  \<open>0\<close>. A call that never returns has the result \<open>None\<close>. The time and the memory that
  a long loop takes are not modelled.
\<close>

definition set_add :: "int list \<Rightarrow> int \<Rightarrow> int list" where
  "set_add s p = (if p \<in> set s then s else s @ [p])"

definition in_bounds :: "int \<Rightarrow> int \<Rightarrow> bool" where
  "in_bounds totalPages p \<longleftrightarrow> p \<ge> 1 \<and> (totalPages = 0 \<or> p \<le> totalPages)"

definition add_page :: "int \<Rightarrow> int list \<Rightarrow> int \<Rightarrow> int list" where
  "add_page totalPages s p = (if in_bounds totalPages p then set_add s p else s)"

text \<open>
  The loop \<open>for (let p = start; p <= end; p++)\<close>. When \<open>p++\<close> leaves the counter where it
  is and the counter has not passed \<open>end\<close>, the loop runs for ever.
\<close>

function range_loop :: "int \<Rightarrow> int list \<Rightarrow> int \<Rightarrow> int \<Rightarrow> int list option" where
  "range_loop totalPages s p e =
     (if p \<le> e
      then (if js_succ p \<le> p then None
            else range_loop totalPages (add_page totalPages s p) (js_succ p) e)
      else Some s)"
  by pat_completeness auto
termination
  by (relation "measure (\<lambda>(totalPages, s, p, e). nat (e - p + 1))") auto

declare range_loop.simps [simp del]

text \<open>
  One chunk. In a pair the smaller number is the start; when one of the two numbers is
  infinite, the end is, and the loop never ends. A single number is kept when
  \<open>Number.isFinite\<close> holds of it.
\<close>

definition add_chunk :: "int \<Rightarrow> int list \<Rightarrow> string \<Rightarrow> int list option" where
  "add_chunk totalPages s chunk =
     (case match_range chunk of
        Some (a, b) \<Rightarrow>
          (case parseInt10 a of
             Finite start0 \<Rightarrow>
               (case parseInt10 b of
                  Finite end0 \<Rightarrow>
                    (let start = (if start0 > end0 then end0 else start0);
                         end = (if start0 > end0 then start0 else end0)
                     in range_loop totalPages s start end)
                | _ \<Rightarrow> None)
           | _ \<Rightarrow> None)
      | None \<Rightarrow>
          (case parseInt10 chunk of
             Finite p \<Rightarrow> Some (add_page totalPages s p)
           | _ \<Rightarrow> Some s))"

fun add_chunks :: "int \<Rightarrow> int list \<Rightarrow> string list \<Rightarrow> int list option" where
  "add_chunks totalPages s [] = Some s"
| "add_chunks totalPages s (chunk # chunks) =
     (case add_chunk totalPages s chunk of
        None \<Rightarrow> None
      | Some s' \<Rightarrow> add_chunks totalPages s' chunks)"

definition chunks_of :: "string \<Rightarrow> string list" where
  "chunks_of rangeStr = filter (\<lambda>c. c \<noteq> []) (map trim (split_on CHR '','' rangeStr))"

definition parsePageRange :: "string \<Rightarrow> int \<Rightarrow> int list option" where
  "parsePageRange rangeStr totalPages =
     (if rangeStr = [] \<or> trim rangeStr = [] then Some []
      else map_option sort (add_chunks totalPages [] (chunks_of rangeStr)))"



section \<open>PDF files and the page operations\<close>

text \<open>
  A PDF document is the list of its pages, and the file system is a map from paths to the
  documents stored there; a path with no entry cannot be read as a PDF, and
  \<open>fsp.readFile\<close> or \<open>PDFDocument.load\<close> throws. A page is a page of some stored document
  or the blank page that \<open>PDFDocument.save\<close> adds to a document without pages
  (\<open>addDefaultPage\<close>, on unless it is switched off, and no call here does). Creating
  the output directory and writing the output file are taken to succeed. A path is the
  file it spells: links, and two spellings of one path, are not modelled.
\<close>

datatype doc_error = ReadError string | SplitNoRanges

datatype 'p page = Page 'p | BlankPage

type_synonym 'p fs = "string \<rightharpoonup> 'p page list"


text \<open>\<open>doc.save(...)\<close>: the pages that the written file has.\<close>

definition save_doc :: "'p page list \<Rightarrow> 'p page list" where
  "save_doc doc = (if doc = [] then [BlankPage] else doc)"

text \<open>
  The page selection of \<open>subsetPdf\<close>: an empty \<open>pages\<close> stands for all pages, the 1-based
  numbers become 0-based indices, indices outside the document are filtered out, and the
  pages at the remaining indices are copied in the order given.
\<close>

definition select_pages :: "'a list \<Rightarrow> int list \<Rightarrow> 'a list" where
  "select_pages srcDoc pages =
     (let total = int (length srcDoc);
          selected = (if pages \<noteq> [] then pages else map (\<lambda>i. int i + 1) [0..<length srcDoc]);
          zeroBased = filter (\<lambda>i. i \<ge> 0 \<and> i < total) (map (\<lambda>p. p - 1) selected)
      in map (\<lambda>i. srcDoc ! nat i) zeroBased)"

definition subsetPdf :: "'p fs \<Rightarrow> string \<Rightarrow> string \<Rightarrow> int list \<Rightarrow> doc_error + ('p fs \<times> string)" where
  "subsetPdf files inputPdf outputPdf pages =
     (case files inputPdf of
        None \<Rightarrow> Inl (ReadError inputPdf)
      | Some srcDoc \<Rightarrow>
          Inr (files(outputPdf \<mapsto> save_doc (select_pages srcDoc pages)), outputPdf))"














text \<open>
  The examples: documents of three, ten and no pages stored as \<open>in.pdf\<close>, and a
  two-page document stored where the first part of a split will be written.
\<close>

definition three_pages :: "string fs" where
  "three_pages = [''in.pdf'' \<mapsto> [Page ''A'', Page ''B'', Page ''C'']]"


definition no_pages :: "string fs" where
  "no_pages = [''in.pdf'' \<mapsto> []]"


section \<open>Category detection\<close>

text \<open>
  The \<open>SUPPORTED_INPUTS\<close> sets of the seven converter modules, as the sources list them.
\<close>

definition audio_inputs :: "string list" where
  "audio_inputs = [''mp3'', ''wav'', ''ogg'', ''m4a'', ''flac'', ''aac'', ''wma'', ''aiff'', ''opus'']"

definition image_inputs :: "string list" where
  "image_inputs = [''jpg'', ''jpeg'', ''png'', ''webp'', ''gif'', ''bmp'', ''tif'', ''tiff'', ''svg'',
                   ''ico'', ''heic'']"

definition document_inputs :: "string list" where
  "document_inputs = [''pdf'', ''docx'', ''doc'', ''txt'', ''rtf'', ''odt'', ''html'', ''htm'', ''epub'']"

definition archive_inputs :: "string list" where
  "archive_inputs = [''zip'', ''7z'', ''rar'', ''tar'', ''gz'', ''bz2'', ''xz'']"

definition presentation_inputs :: "string list" where
  "presentation_inputs = [''pptx'', ''ppt'', ''odp'', ''key'', ''pdf'']"

definition font_inputs :: "string list" where
  "font_inputs = [''ttf'', ''otf'', ''woff'', ''woff2'', ''eot'']"

definition ebook_inputs :: "string list" where
  "ebook_inputs = [''epub'', ''mobi'', ''azw3'', ''pdf'', ''txt'', ''html'']"

text \<open>
  \<open>path.extname\<close> on POSIX paths: trailing separators are skipped; in the last segment
  the extension starts at the last dot; there is none when the segment has no dot, when
  its only dot is its first character, or when the segment is \<open>..\<close>.
\<close>

definition extname :: "string \<Rightarrow> string" where
  "extname p =
     (let segr = takeWhile (\<lambda>c. c \<noteq> CHR ''/'') (dropWhile (\<lambda>c. c = CHR ''/'') (rev p));
          er = takeWhile (\<lambda>c. c \<noteq> CHR ''.'') segr;
          stem = drop (length er + 1) segr
      in if CHR ''.'' \<notin> set segr \<or> stem = [] \<or> segr = ''..'' then []
         else CHR ''.'' # rev er)"

text \<open>
  \<open>toLowerCase\<close> on code units below 256: the letters A to Z and the capital letters from
  U+00C0 to U+00DE, without the multiplication sign U+00D7, move up by 32.
\<close>

definition lower_char :: "char \<Rightarrow> char" where
  "lower_char c =
     (let n = (of_char c :: nat)
      in if (65 \<le> n \<and> n \<le> 90) \<or> (192 \<le> n \<and> n \<le> 222 \<and> n \<noteq> 215)
         then char_of (n + 32) else c)"

definition toLowerCase :: "string \<Rightarrow> string" where
  "toLowerCase s = map lower_char s"

text \<open>\<open>ext(p)\<close> of \<open>converter.js\<close>: \<open>path.extname(p).replace(/^\./, '').toLowerCase()\<close>.\<close>

definition ext :: "string \<Rightarrow> string" where
  "ext p =
     toLowerCase (case extname p of
                    [] \<Rightarrow> []
                  | c # r \<Rightarrow> if c = CHR ''.'' then r else c # r)"

datatype category = Audio | Image | Document | Archive | Presentation | Font | Ebook | Unknown

definition detectCategory :: "string \<Rightarrow> category" where
  "detectCategory filePath =
     (let e = ext filePath
      in if e \<in> set audio_inputs then Audio
         else if e \<in> set image_inputs then Image
         else if e \<in> set document_inputs then Document
         else if e \<in> set archive_inputs then Archive
         else if e \<in> set presentation_inputs then Presentation
         else if e \<in> set font_inputs then Font
         else if e \<in> set ebook_inputs then Ebook
         else Unknown)"

text \<open>
  The priority order as a list of capabilities, and the first capability of a list that
  supports an extension.
\<close>

definition capabilities :: "(category \<times> string list) list" where
  "capabilities =
     [(Audio, audio_inputs), (Image, image_inputs), (Document, document_inputs),
      (Archive, archive_inputs), (Presentation, presentation_inputs), (Font, font_inputs),
      (Ebook, ebook_inputs)]"

fun first_supporting :: "string \<Rightarrow> (category \<times> string list) list \<Rightarrow> category" where
  "first_supporting e [] = Unknown"
| "first_supporting e ((c, inputs) # rest) =
     (if e \<in> set inputs then c else first_supporting e rest)"

text \<open>
  The converter that \<open>runConversionJob\<close> calls for a category (its \<open>switch\<close>); for any
  other category it throws "Unsupported file type".
\<close>

datatype converter = ConvertAudio | ConvertImage | ConvertDocument | ConvertArchive
  | ConvertPresentation | ConvertFont | ConvertEbook

fun converter_for :: "category \<Rightarrow> converter option" where
  "converter_for Audio = Some ConvertAudio"
| "converter_for Image = Some ConvertImage"
| "converter_for Document = Some ConvertDocument"
| "converter_for Archive = Some ConvertArchive"
| "converter_for Presentation = Some ConvertPresentation"
| "converter_for Font = Some ConvertFont"
| "converter_for Ebook = Some ConvertEbook"
| "converter_for Unknown = None"

section \<open>The job registry\<close>

text \<open>
  A job record of \<open>converter.js\<close> and the in-memory store \<open>jobs\<close>, a map from job ids to
  records. Of the \<open>meta\<close> object only the category is kept; the output format and the
  batch id are never read by the operations below. The numbers are reals that hold
  binary64 values (\<open>progress\<close>, elapsed seconds) and integers (\<open>Date.now()\<close> in
  milliseconds, below \<open>2^53\<close> in magnitude, so that the difference of two of them is
  exact). \<open>etaSeconds\<close> is \<open>null\<close>, which is \<open>None\<close>, or the result of
  \<open>Math.max(0, Math.round(...))\<close>, a natural number or \<open>Infinity\<close>.
\<close>

datatype status = Queued | Running | Completed | Failed | Cancelled

record job =
  jobId :: string
  status :: status
  progress :: real
  etaSeconds :: "enat option"
  inputPath :: "string option"
  outputPath :: "string option"
  error :: "string option"
  category :: category
  createdAt :: int

type_synonym jobs = "string \<rightharpoonup> job"

text \<open>\<open>newJob\<close>; the fresh id and the current time are inputs.\<close>

definition newJob :: "jobs \<Rightarrow> string \<Rightarrow> category \<Rightarrow> int \<Rightarrow> job \<times> jobs" where
  "newJob js newId cat now =
     (let j = \<lparr> jobId = newId, status = Queued, progress = 0, etaSeconds = None,
                 inputPath = None, outputPath = None, error = None, category = cat,
                 createdAt = now \<rparr>
      in (j, js(newId \<mapsto> j)))"

text \<open>
  The cancel endpoint: 404 for an unknown id, 400 for a job that is completed or failed,
  otherwise the status becomes \<open>cancelled\<close>. The two \<open>unlink\<close> calls remove files and leave
  the record as it is.
\<close>

datatype cancel_response = NotFound | AlreadyFinished | CancelOk status

definition cancel :: "jobs \<Rightarrow> string \<Rightarrow> cancel_response \<times> jobs" where
  "cancel js i =
     (case js i of
        None \<Rightarrow> (NotFound, js)
      | Some j \<Rightarrow>
          if status j = Completed \<or> status j = Failed then (AlreadyFinished, js)
          else (CancelOk Cancelled, js(i \<mapsto> j\<lparr>status := Cancelled\<rparr>)))"

text \<open>
  The first lines of \<open>runConversionJob\<close>: it returns at once for an unknown or cancelled
  job (\<open>None\<close>), otherwise the job is running with progress 0.
\<close>

definition run_start :: "jobs \<Rightarrow> string \<Rightarrow> jobs option" where
  "run_start js i =
     (case js i of
        None \<Rightarrow> None
      | Some j \<Rightarrow>
          if status j = Cancelled then None
          else Some (js(i \<mapsto> j\<lparr>status := Running, progress := 0\<rparr>)))"

text \<open>
  The \<open>progress\<close> callback, called with the value \<open>p\<close> at time \<open>now\<close> by a run that
  started at time \<open>started\<close>. \<open>p\<close> is the number \<open>Number(p)\<close>, with 0 for \<open>NaN\<close> as
  \<open>Number(p) || 0\<close> has it. \<open>rate\<close> is \<open>None\<close> when it is \<open>null\<close> (the progress is 0) and
  when it is \<open>NaN\<close> (the elapsed time is 0 and the fraction \<open>progress / 100\<close> has
  underflowed to 0); the test \<open>rate ? ... : null\<close> takes both, and a rate of 0, as
  false.
\<close>

definition clamp_percent :: "real \<Rightarrow> real" where
  "clamp_percent p = max 0 (min 100 p)"

definition eta_of :: "real \<Rightarrow> real \<Rightarrow> enat option" where
  "eta_of prog elapsed =
     (let rate = (if prog > 0 then num_div elapsed (fdiv prog 100) else None)
      in case rate of
           None \<Rightarrow> None
         | Some r \<Rightarrow> if r \<noteq> Num 0 then Some (max0_round (num_sub r elapsed)) else None)"

definition progress_cb :: "jobs \<Rightarrow> string \<Rightarrow> int \<Rightarrow> int \<Rightarrow> real \<Rightarrow> jobs" where
  "progress_cb js i started now p =
     (case js i of
        None \<Rightarrow> js
      | Some j \<Rightarrow>
          (let prog = clamp_percent p;
               elapsed = fdiv (real_of_int (now - started)) 1000
           in js(i \<mapsto> j\<lparr>progress := prog, etaSeconds := eta_of prog elapsed\<rparr>)))"

text \<open>
  What a converter resolves with: a path, an object with an \<open>outputPath\<close> or a
  \<open>pdfPath\<close> field, or anything else (an array of paths, a directory listing). The output
  path of the job is \<open>typeof result === 'string' ? result : result?.outputPath ||
  result?.pdfPath || null\<close>; an empty string is falsy.
\<close>

datatype conv_result = ResultPath string | ResultObject "string option" "string option"
  | ResultOther

definition truthy :: "string option \<Rightarrow> bool" where
  "truthy v = (case v of None \<Rightarrow> False | Some s \<Rightarrow> s \<noteq> [])"

fun output_of :: "conv_result \<Rightarrow> string option" where
  "output_of (ResultPath s) = Some s"
| "output_of (ResultObject outPath pdfPath) =
     (if truthy outPath then outPath else if truthy pdfPath then pdfPath else None)"
| "output_of ResultOther = None"

text \<open>
  The end of the \<open>try\<close> block after the converter has resolved, and the \<open>catch\<close> block
  after it has rejected with a message; the message recorded is \<open>e?.message ||
  'Conversion failed'\<close>, and a rejection without a message has the empty one. The first
  works on the record the run holds; when the record has left the store its writes are
  not visible any more.
\<close>

definition finalize_ok :: "jobs \<Rightarrow> string \<Rightarrow> conv_result \<Rightarrow> jobs" where
  "finalize_ok js i result =
     (case js i of
        None \<Rightarrow> js
      | Some j \<Rightarrow>
          if status j = Cancelled then js
          else js(i \<mapsto> j\<lparr>outputPath := output_of result, status := Completed,
                           progress := 100, etaSeconds := Some 0\<rparr>))"

definition finalize_err :: "jobs \<Rightarrow> string \<Rightarrow> string \<Rightarrow> jobs" where
  "finalize_err js i msg =
     (case js i of
        None \<Rightarrow> js
      | Some j \<Rightarrow>
          js(i \<mapsto> j\<lparr>status := Failed,
                       error := Some (if msg = [] then ''Conversion failed'' else msg),
                       etaSeconds := None\<rparr>))"

text \<open>
  The milestone that \<open>runConversionJob\<close> reports itself before it calls the converter of
  a category, none for the two converters that get the callback; after such a
  converter resolves it reports 100.
\<close>

fun first_milestone :: "category \<Rightarrow> real option" where
  "first_milestone Audio = None"
| "first_milestone Archive = None"
| "first_milestone Image = Some 10"
| "first_milestone Font = Some 10"
| "first_milestone Document = Some 5"
| "first_milestone Presentation = Some 5"
| "first_milestone Ebook = Some 5"
| "first_milestone Unknown = None"

text \<open>
  One run of \<open>runConversionJob\<close> for a job, cut at its \<open>await\<close>: the start up to the call
  of the converter, the progress reports of the converter, its resolution or rejection;
  and the cancel requests that arrive in between. \<open>phase\<close> is where the run stands: not
  started, waiting for the converter since a start time, or over, with the start time
  when the run got as far as taking it. Only the audio and the archive converter are
  given the callback, and nothing in the callback stops them from calling it after the
  run is over.
\<close>

datatype phase = NotStarted | InFlight int | Over "int option"

datatype event =
    Start int
  | Report real int
  | Resolve conv_result int
  | Reject string
  | CancelRequest

definition has_callback :: "category \<Rightarrow> bool" where
  "has_callback cat \<longleftrightarrow> cat = Audio \<or> cat = Archive"

fun step :: "string \<Rightarrow> category \<Rightarrow> jobs \<times> phase \<Rightarrow> event \<Rightarrow> jobs \<times> phase" where
  "step i cat (js, ph) CancelRequest = (snd (cancel js i), ph)"
| "step i cat (js, NotStarted) (Start now) =
     (case run_start js i of
        None \<Rightarrow> (js, Over None)
      | Some js1 \<Rightarrow>
          (case converter_for cat of
             None \<Rightarrow> (finalize_err js1 i ''Unsupported file type'', Over (Some now))
           | Some c \<Rightarrow>
               (case first_milestone cat of
                  None \<Rightarrow> (js1, InFlight now)
                | Some m \<Rightarrow> (progress_cb js1 i now now m, InFlight now))))"
| "step i cat (js, InFlight started) (Report p now) =
     (if has_callback cat then (progress_cb js i started now p, InFlight started)
      else (js, InFlight started))"
| "step i cat (js, Over (Some started)) (Report p now) =
     (if has_callback cat then (progress_cb js i started now p, Over (Some started))
      else (js, Over (Some started)))"
| "step i cat (js, InFlight started) (Resolve result now) =
     (case first_milestone cat of
        None \<Rightarrow> (finalize_ok js i result, Over (Some started))
      | Some m \<Rightarrow> (finalize_ok (progress_cb js i started now 100) i result, Over (Some started)))"
| "step i cat (js, InFlight started) (Reject msg) = (finalize_err js i msg, Over (Some started))"
| "step i cat (js, ph) ev = (js, ph)"

definition run_events :: "string \<Rightarrow> category \<Rightarrow> jobs \<Rightarrow> event list \<Rightarrow> jobs \<times> phase" where
  "run_events i cat js evs = foldl (step i cat) (js, NotStarted) evs"

text \<open>The progress values a reader sees after each of a series of progress reports.\<close>

fun progress_trace :: "jobs \<Rightarrow> string \<Rightarrow> int \<Rightarrow> (real \<times> int) list \<Rightarrow> real list" where
  "progress_trace js i started [] = []"
| "progress_trace js i started ((p, now) # ups) =
     (let js' = progress_cb js i started now p
      in (case js' i of None \<Rightarrow> [] | Some j \<Rightarrow> [progress j]) @ progress_trace js' i started ups)"

text \<open>The example: a new audio job and the store that holds it.\<close>

definition queued_job :: job where
  "queued_job = fst (newJob Map.empty ''j1'' Audio 0)"

definition one_job :: jobs where
  "one_job = snd (newJob Map.empty ''j1'' Audio 0)"

section \<open>The bounded worker pool\<close>

text \<open>
  \<open>runLimited(items, limit, mapper)\<close> of \<open>imageConverter.js\<close>. JavaScript runs one callback
  at a time, so the pool is a state machine: \<open>launch\<close> runs its loop to the end, and then
  one of the started mapper calls settles, in any order. The state holds the variables of
  the closure (\<open>results\<close>, \<open>next\<close>, \<open>active\<close>), the indices whose mapper call has been
  started and has not settled yet, and the state of the returned promise, which settles
  once. A hole of \<open>new Array(n)\<close> is \<open>None\<close>. The mapper either resolves with a result or
  rejects with a message; \<open>limit\<close> is an integer.

  The page fan-out inside \<open>pdfToImagesViaLibreOffice\<close> of \<open>documentConverter.js\<close> is the same
  loop written inline, with \<open>singles\<close> for \<open>items\<close>, \<open>concurrency\<close> for \<open>limit\<close> and the
  conversion and renaming of one page for \<open>mapper\<close>; the model stands for both.
\<close>

datatype 'r outcome = Pending | Resolved "'r option list" | Rejected string

record 'r pool =
  results :: "'r option list"
  nxt :: nat
  active :: int
  inflight :: "nat list"
  outcome :: "'r outcome"

definition settle :: "'r outcome \<Rightarrow> 'r pool \<Rightarrow> 'r pool" where
  "settle out s = (if outcome s = Pending then s\<lparr>outcome := out\<rparr> else s)"

function launch :: "'a list \<Rightarrow> int \<Rightarrow> 'r pool \<Rightarrow> 'r pool" where
  "launch items limit s =
     (if active s < limit \<and> nxt s < length items
      then launch items limit
             (s\<lparr>nxt := nxt s + 1, active := active s + 1, inflight := inflight s @ [nxt s]\<rparr>)
      else s)"
  by pat_completeness auto
termination
  by (relation "measure (\<lambda>(items, limit, s). length items - nxt s)") auto

declare launch.simps [simp del]

definition runLimited :: "'a list \<Rightarrow> int \<Rightarrow> 'r pool" where
  "runLimited items limit =
     launch items limit
       \<lparr>results = replicate (length items) None, nxt = 0, active = 0, inflight = [],
        outcome = Pending\<rparr>"

text \<open>
  The mapper call for index \<open>idx\<close> settles. When it resolves, the \<open>then\<close> callback stores
  the result, frees the slot and either resolves the promise or launches again; when it
  rejects, the \<open>catch\<close> callback rejects the promise and nothing else happens. An index
  that is not in flight has nothing to settle.
\<close>

definition on_settled ::
  "'a list \<Rightarrow> int \<Rightarrow> ('a \<Rightarrow> nat \<Rightarrow> string + 'r) \<Rightarrow> 'r pool \<Rightarrow> nat \<Rightarrow> 'r pool" where
  "on_settled items limit mapper s idx =
     (if idx \<notin> set (inflight s) then s
      else (let s1 = s\<lparr>inflight := removeAll idx (inflight s)\<rparr>
            in case mapper (items ! idx) idx of
                 Inl err \<Rightarrow> settle (Rejected err) s1
               | Inr res \<Rightarrow>
                   (let s2 = s1\<lparr>results := (results s1)[idx := Some res], active := active s1 - 1\<rparr>
                    in if nxt s2 \<ge> length items \<and> active s2 = 0
                       then settle (Resolved (results s2)) s2
                       else launch items limit s2)))"

text \<open>
  The state after the calls settle in the order \<open>sched\<close>; every state the pool can reach
  is one of these.
\<close>

definition run_schedule ::
  "'a list \<Rightarrow> int \<Rightarrow> ('a \<Rightarrow> nat \<Rightarrow> string + 'r) \<Rightarrow> nat list \<Rightarrow> 'r pool" where
  "run_schedule items limit mapper sched =
     foldl (on_settled items limit mapper) (runLimited items limit) sched"

text \<open>
  The indices that were started, are not in flight any more and left no result: their
  mapper calls rejected.
\<close>

definition failed :: "'r pool \<Rightarrow> nat set" where
  "failed s = {k. k < nxt s \<and> k \<notin> set (inflight s) \<and> results s ! k = None}"

text \<open>
  How many calls one run of the loop of \<open>launch\<close> starts: as many as there are free
  slots, and no more than there are items left.
\<close>

definition launch_count :: "'a list \<Rightarrow> int \<Rightarrow> 'r pool \<Rightarrow> nat" where
  "launch_count items limit s = min (nat (limit - active s)) (length items - nxt s)"

text \<open>
  The invariant of the pool between two callbacks, without and with the fact that the
  window is full while items are waiting.
\<close>

definition pool_ok :: "'a list \<Rightarrow> int \<Rightarrow> ('a \<Rightarrow> nat \<Rightarrow> string + 'r) \<Rightarrow> 'r pool \<Rightarrow> bool" where
  "pool_ok items limit mapper s \<longleftrightarrow>
     nxt s \<le> length items \<and>
     length (results s) = length items \<and>
     distinct (inflight s) \<and>
     (\<forall>k\<in>set (inflight s). k < nxt s \<and> results s ! k = None) \<and>
     (\<forall>k. nxt s \<le> k \<and> k < length items \<longrightarrow> results s ! k = None) \<and>
     active s = int (length (inflight s)) + int (card (failed s)) \<and>
     active s \<le> limit \<and>
     (\<forall>k r. k < length items \<and> results s ! k = Some r \<longrightarrow> mapper (items ! k) k = Inr r) \<and>
     (\<forall>k\<in>failed s. isl (mapper (items ! k) k)) \<and>
     (\<forall>rs. outcome s = Resolved rs \<longrightarrow>
        rs = results s \<and> inflight s = [] \<and> nxt s = length items \<and>
        (\<forall>k<length items. results s ! k \<noteq> None))"

definition pool_inv :: "'a list \<Rightarrow> int \<Rightarrow> ('a \<Rightarrow> nat \<Rightarrow> string + 'r) \<Rightarrow> 'r pool \<Rightarrow> bool" where
  "pool_inv items limit mapper s \<longleftrightarrow>
     pool_ok items limit mapper s \<and> (nxt s < length items \<longrightarrow> limit \<le> active s)"

text \<open>
  With items to process, the promise does not stay pending once every item has been
  started and no slot is taken.
\<close>

definition pool_live :: "'a list \<Rightarrow> 'r pool \<Rightarrow> bool" where
  "pool_live items s \<longleftrightarrow>
     (items \<noteq> [] \<and> nxt s = length items \<and> active s = 0 \<longrightarrow> outcome s \<noteq> Pending)"

text \<open>
  The two uses of the pool. \<open>convertImage\<close> with an array of inputs runs the pool over
  the inputs (after \<open>validateFormats\<close> has accepted the output format and every input)
  with the limit \<open>options.concurrency && Number.isFinite(options.concurrency) ?
  Math.max(1, options.concurrency) : 4\<close>. \<open>pdfToImagesViaLibreOffice\<close> runs it over the pages
  1 to \<open>total\<close> of the document with the limit \<open>concurrency\<close>.
\<close>

definition convertImage_limit :: "int option \<Rightarrow> int" where
  "convertImage_limit concurrency =
     (case concurrency of
        None \<Rightarrow> 4
      | Some c \<Rightarrow> if c = 0 then 4 else max 1 c)"

definition convertImage_batch ::
  "string list \<Rightarrow> int option \<Rightarrow> (string \<Rightarrow> nat \<Rightarrow> string + 'r) \<Rightarrow> nat list \<Rightarrow> 'r pool" where
  "convertImage_batch inputs concurrency mapper sched =
     run_schedule inputs (convertImage_limit concurrency) mapper sched"

definition pdfToImages_pages ::
  "nat \<Rightarrow> int \<Rightarrow> (nat \<Rightarrow> nat \<Rightarrow> string + 'r) \<Rightarrow> nat list \<Rightarrow> 'r pool" where
  "pdfToImages_pages tot concurrency mapper sched =
     run_schedule [1..<Suc tot] concurrency mapper sched"

text \<open>The example: a mapper that doubles a number and never rejects.\<close>

definition double :: "nat \<Rightarrow> nat \<Rightarrow> string + nat" where
  "double x idx = Inr (2 * x)"

section \<open>Properties of the rounding\<close>

lemma bit_length_upper: "0 \<le> n \<Longrightarrow> n < 2 ^ bit_length n"
proof (induction n rule: bit_length.induct)
  case (1 n)
  show ?case
  proof (cases "n \<le> 0")
    case True
    with 1(2) show ?thesis by (subst bit_length.simps) simp
  next
    case False
    then have "n div 2 < 2 ^ bit_length (n div 2)" using 1(1) by simp
    then have "n < 2 * 2 ^ bit_length (n div 2)" by linarith
    with False show ?thesis by (subst bit_length.simps) simp
  qed
qed

lemma bit_length_lower: "0 < n \<Longrightarrow> 2 ^ (bit_length n - 1) \<le> n"
proof (induction n rule: bit_length.induct)
  case (1 n)
  from 1(2) have nz: "\<not> n \<le> 0" by simp
  have bl: "bit_length n = Suc (bit_length (n div 2))"
    using nz by (subst bit_length.simps) simp
  show ?case
  proof (cases "n div 2 \<le> 0")
    case True
    then have "bit_length (n div 2) = 0" by (subst bit_length.simps) simp
    with bl 1(2) show ?thesis by simp
  next
    case False
    then have pos: "0 < n div 2" by simp
    with 1(1) nz have ih: "2 ^ (bit_length (n div 2) - 1) \<le> n div 2" by simp
    have "bit_length (n div 2) = Suc (bit_length (n div 2 div 2))"
      using False by (subst bit_length.simps) simp
    then obtain k where k: "bit_length (n div 2) = Suc k" by blast
    from ih k have "2 * 2 ^ k \<le> 2 * (n div 2)" by simp
    also have "\<dots> \<le> n" by linarith
    finally show ?thesis using bl k by simp
  qed
qed

lemma bit_length_pos: "0 < n \<Longrightarrow> 0 < bit_length n"
  by (subst bit_length.simps) simp

lemma pow2_pos: "0 < pow2 e"
  by (simp add: pow2_def)

lemma pow2_powr: "pow2 e = 2 powr (real_of_int e)"
proof (cases "0 \<le> e")
  case True
  then have r: "real_of_int e = real (nat e)" by simp
  have "(2::real) powr real (nat e) = 2 ^ nat e" by (rule powr_realpow) simp
  with r True show ?thesis by (simp only: pow2_def if_True)
next
  case False
  then have r: "real_of_int e = - real (nat (- e))" by simp
  have "(2::real) powr real (nat (- e)) = 2 ^ nat (- e)" by (rule powr_realpow) simp
  then have "(2::real) powr (- real (nat (- e))) = 1 / 2 ^ nat (- e)"
    by (simp only: powr_minus divide_inverse mult_1)
  with r False show ?thesis by (simp only: pow2_def if_False)
qed

lemma pow2_mono: "e \<le> e' \<Longrightarrow> pow2 e \<le> pow2 e'"
  by (simp add: pow2_powr)

lemma pow2_ilog2_le:
  assumes "0 < a"
  shows "pow2 (ilog2 a) \<le> a"
proof (cases "1 \<le> a")
  case True
  then have fp: "0 < \<lfloor>a\<rfloor>" by linarith
  from bit_length_pos [OF fp] have "0 \<le> int (bit_length \<lfloor>a\<rfloor>) - 1" by simp
  moreover have "nat (int (bit_length \<lfloor>a\<rfloor>) - 1) = bit_length \<lfloor>a\<rfloor> - 1" by simp
  ultimately have "pow2 (ilog2 a) = 2 ^ (bit_length \<lfloor>a\<rfloor> - 1)"
    using True by (simp add: ilog2_def pow2_def)
  also have "\<dots> = real_of_int (2 ^ (bit_length \<lfloor>a\<rfloor> - 1))" by simp
  also have "\<dots> \<le> real_of_int \<lfloor>a\<rfloor>"
    using bit_length_lower [OF fp] by (simp only: of_int_le_iff)
  also have "\<dots> \<le> a" by simp
  finally show ?thesis .
next
  case False
  define N where "N = \<lceil>1 / a\<rceil> - 1"
  from False have "a < 1" by simp
  with assms have "1 < 1 / a" by (simp add: field_simps)
  then have "1 < \<lceil>1 / a\<rceil>" by linarith
  then have N0: "0 \<le> N" unfolding N_def by linarith
  from bit_length_upper [OF N0] have "N + 1 \<le> 2 ^ bit_length N" by simp
  then have "real_of_int (N + 1) \<le> real_of_int (2 ^ bit_length N)" by (simp only: of_int_le_iff)
  moreover have "1 / a \<le> real_of_int (N + 1)" unfolding N_def by linarith
  ultimately have "1 / a \<le> 2 ^ bit_length N" by simp
  then have "1 \<le> a * 2 ^ bit_length N" using assms by (simp add: field_simps)
  then have "1 / 2 ^ bit_length N \<le> a" by (simp add: field_simps)
  moreover have "pow2 (ilog2 a) = 1 / 2 ^ bit_length N"
    using False by (simp add: ilog2_def pow2_def N_def)
  ultimately show ?thesis by simp
qed

lemma round_half_even_ge: "\<lfloor>q\<rfloor> \<le> round_half_even q"
  by (simp add: round_half_even_def Let_def)

lemma round_half_even_le: "q \<le> real_of_int K \<Longrightarrow> round_half_even q \<le> K"
proof -
  assume a: "q \<le> real_of_int K"
  then have f: "\<lfloor>q\<rfloor> \<le> K" by linarith
  show ?thesis
  proof (cases "\<lfloor>q\<rfloor> = K")
    case True
    with a have "q - real_of_int \<lfloor>q\<rfloor> \<le> 0" by simp
    then show ?thesis using True by (simp add: round_half_even_def Let_def)
  next
    case False
    with f have "\<lfloor>q\<rfloor> + 1 \<le> K" by simp
    then show ?thesis by (simp add: round_half_even_def Let_def)
  qed
qed

lemma round_half_even_pos: "1 / 2 < q \<Longrightarrow> 1 \<le> round_half_even q"
proof -
  assume a: "1 / 2 < q"
  show ?thesis
  proof (cases "1 \<le> q")
    case True
    then have "1 \<le> \<lfloor>q\<rfloor>" by linarith
    with round_half_even_ge [of q] show ?thesis by linarith
  next
    case False
    with a have f: "\<lfloor>q\<rfloor> = 0" by linarith
    with a show ?thesis by (simp add: round_half_even_def Let_def)
  qed
qed

lemma round_half_even_small: "0 \<le> q \<Longrightarrow> q \<le> 1 / 2 \<Longrightarrow> round_half_even q = 0"
proof -
  assume a: "0 \<le> q" "q \<le> 1 / 2"
  then have f: "\<lfloor>q\<rfloor> = 0" by linarith
  with a show ?thesis by (simp add: round_half_even_def Let_def)
qed

lemma pow2_add: "pow2 (a + b) = pow2 a * pow2 b"
  by (simp add: pow2_powr powr_add)

lemma pow2_less_cancel: "pow2 a \<le> pow2 b \<Longrightarrow> a \<le> b"
  by (simp add: pow2_powr)

lemma fl_nonzero:
  assumes "pow2 (- 1075) < \<bar>x\<bar>"
  shows "fl x \<noteq> 0"
proof -
  define e where "e = max (ilog2 \<bar>x\<bar> - 52) (- 1074)"
  from assms pow2_pos [of "- 1075"] have ax: "0 < \<bar>x\<bar>" by linarith
  then have xz: "x \<noteq> 0" by simp
  have "1 \<le> round_half_even (\<bar>x\<bar> / pow2 e)"
  proof (cases "ilog2 \<bar>x\<bar> - 52 \<le> - 1074")
    case True
    then have e: "e = - 1074" by (simp add: e_def)
    have "pow2 (- 1075) = pow2 (- 1074) * (1 / 2)"
      using pow2_add [of "- 1074" "- 1"] by (simp add: pow2_def)
    with assms have "pow2 (- 1074) * (1 / 2) < \<bar>x\<bar>" by simp
    then have "1 / 2 < \<bar>x\<bar> / pow2 (- 1074)"
      using pow2_pos [of "- 1074"] by (simp add: field_simps)
    with e show ?thesis by (simp only: round_half_even_pos)
  next
    case False
    then have e: "e = ilog2 \<bar>x\<bar> - 52" by (simp add: e_def)
    have "pow2 e \<le> pow2 (ilog2 \<bar>x\<bar>)" by (rule pow2_mono) (simp add: e)
    also have "\<dots> \<le> \<bar>x\<bar>" by (rule pow2_ilog2_le [OF ax])
    finally have "1 \<le> \<bar>x\<bar> / pow2 e" using pow2_pos [of e] by (simp add: field_simps)
    then have "1 / 2 < \<bar>x\<bar> / pow2 e" by linarith
    then show ?thesis by (rule round_half_even_pos)
  qed
  then have "real_of_int (round_half_even (\<bar>x\<bar> / pow2 e)) \<noteq> 0" by simp
  moreover have "sgn x \<noteq> 0" using xz by (simp add: sgn_eq_0_iff)
  moreover have "pow2 e \<noteq> 0" using pow2_pos [of e] by simp
  ultimately show ?thesis using xz by (simp add: fl_def Let_def e_def)
qed

lemma fl_zero:
  assumes "\<bar>x\<bar> \<le> pow2 (- 1075)"
  shows "fl x = 0"
proof (cases "x = 0")
  case True
  then show ?thesis by (simp add: fl_def)
next
  case False
  then have ax: "0 < \<bar>x\<bar>" by simp
  have "pow2 (ilog2 \<bar>x\<bar>) \<le> \<bar>x\<bar>" by (rule pow2_ilog2_le [OF ax])
  with assms have "pow2 (ilog2 \<bar>x\<bar>) \<le> pow2 (- 1075)" by simp
  then have "ilog2 \<bar>x\<bar> \<le> - 1075" by (rule pow2_less_cancel)
  then have e: "max (ilog2 \<bar>x\<bar> - 52) (- 1074) = - 1074" by simp
  have "pow2 (- 1075) = pow2 (- 1074) * (1 / 2)"
    using pow2_add [of "- 1074" "- 1"] by (simp add: pow2_def)
  with assms have "\<bar>x\<bar> \<le> pow2 (- 1074) * (1 / 2)" by simp
  then have "\<bar>x\<bar> / pow2 (- 1074) \<le> 1 / 2"
    using pow2_pos [of "- 1074"] by (simp add: field_simps)
  moreover have "0 \<le> \<bar>x\<bar> / pow2 (- 1074)" using pow2_pos [of "- 1074"] by simp
  ultimately have "round_half_even (\<bar>x\<bar> / pow2 (- 1074)) = 0" by (simp only: round_half_even_small)
  with False e show ?thesis by (simp add: fl_def Let_def)
qed

lemma fl_eq_0_iff: "fl x = 0 \<longleftrightarrow> \<bar>x\<bar> \<le> pow2 (- 1075)"
  using fl_zero [of x] fl_nonzero [of x] by fastforce

lemma fl_nonneg: "0 \<le> x \<Longrightarrow> 0 \<le> fl x"
proof -
  assume a: "0 \<le> x"
  have "0 \<le> \<lfloor>\<bar>x\<bar> / pow2 e\<rfloor>" for e using pow2_pos [of e] by simp
  then have "0 \<le> round_half_even (\<bar>x\<bar> / pow2 e)" for e
    using round_half_even_ge [of "\<bar>x\<bar> / pow2 e"] by (meson order_trans)
  then have "0 \<le> real_of_int (round_half_even (\<bar>x\<bar> / pow2 e)) * pow2 e" for e
    using pow2_pos [of e] by simp
  with a show ?thesis by (simp add: fl_def Let_def sgn_if mult.assoc)
qed

lemma fl_abs_ge:
  assumes "fl x \<noteq> 0"
  shows "pow2 (- 1074) \<le> \<bar>fl x\<bar>"
proof -
  define e where "e = max (ilog2 \<bar>x\<bar> - 52) (- 1074)"
  define m where "m = round_half_even (\<bar>x\<bar> / pow2 e)"
  from assms have xz: "x \<noteq> 0" by (auto simp: fl_def)
  then have f: "fl x = sgn x * real_of_int m * pow2 e" by (simp add: fl_def Let_def e_def m_def)
  have "0 \<le> \<lfloor>\<bar>x\<bar> / pow2 e\<rfloor>" using pow2_pos [of e] by simp
  with round_half_even_ge [of "\<bar>x\<bar> / pow2 e"] have m0: "0 \<le> m" unfolding m_def by linarith
  from assms f have "m \<noteq> 0" by auto
  with m0 have m1: "1 \<le> real_of_int m" by simp
  have "\<bar>fl x\<bar> = real_of_int m * pow2 e"
    using f xz m0 pow2_pos [of e] by (simp add: abs_mult sgn_if)
  moreover have "pow2 (- 1074) \<le> pow2 e" by (rule pow2_mono) (simp add: e_def)
  moreover have "1 * pow2 e \<le> real_of_int m * pow2 e"
    using m1 pow2_pos [of e] by (simp only: mult_le_cancel_right) simp
  ultimately show ?thesis by simp
qed

lemma ilog2_le_0: "0 < a \<Longrightarrow> a \<le> 1 \<Longrightarrow> ilog2 a \<le> 0"
proof -
  assume a: "0 < a" "a \<le> 1"
  show ?thesis
  proof (cases "1 \<le> a")
    case True
    with a have "a = 1" by simp
    moreover have "bit_length 1 = 1"
      by (subst bit_length.simps, simp, subst bit_length.simps, simp)
    ultimately show ?thesis by (simp add: ilog2_def)
  next
    case False
    then show ?thesis by (simp add: ilog2_def)
  qed
qed

lemma fl_le_one:
  assumes "0 \<le> a" and "a \<le> 1"
  shows "fl a \<le> 1"
proof (cases "a = 0")
  case True
  then show ?thesis by (simp add: fl_def)
next
  case False
  with assms have ap: "0 < a" by simp
  define e where "e = max (ilog2 \<bar>a\<bar> - 52) (- 1074)"
  from ilog2_le_0 [OF ap assms(2)] ap have e0: "e \<le> 0" by (simp add: e_def)
  define K :: int where "K = 2 ^ nat (- e)"
  have pk: "pow2 e * real_of_int K = 1"
  proof (cases "e = 0")
    case True
    then show ?thesis by (simp add: pow2_def K_def)
  next
    case False
    with e0 show ?thesis by (simp add: pow2_def K_def)
  qed
  have "a \<le> pow2 e * real_of_int K" using pk assms by simp
  then have "\<bar>a\<bar> / pow2 e \<le> real_of_int K"
    using pow2_pos [of e] ap by (simp add: field_simps)
  then have "round_half_even (\<bar>a\<bar> / pow2 e) \<le> K" by (rule round_half_even_le)
  then have "real_of_int (round_half_even (\<bar>a\<bar> / pow2 e)) \<le> real_of_int K" by (simp only: of_int_le_iff)
  then have "real_of_int (round_half_even (\<bar>a\<bar> / pow2 e)) * pow2 e \<le> real_of_int K * pow2 e"
    using pow2_pos [of e] by (simp only: mult_le_cancel_right) simp
  also have "\<dots> = 1" using pk by (simp add: mult.commute)
  finally show ?thesis using ap False by (simp add: fl_def Let_def e_def sgn_if)
qed

lemma fdiv_percent: "0 \<le> p \<Longrightarrow> p \<le> 100 \<Longrightarrow> 0 \<le> fdiv p 100 \<and> fdiv p 100 \<le> 1"
  by (simp add: fdiv_def fl_nonneg fl_le_one)

lemma pow2_tiny: "pow2 (- 1075) < 1 / 1000"
proof -
  have "pow2 (- 1075) \<le> pow2 (- 10)" by (rule pow2_mono) simp
  also have "\<dots> < 1 / 1000" by (simp add: pow2_def)
  finally show ?thesis .
qed

lemma fdiv_ms_eq_0_iff: "fdiv (real_of_int d) 1000 = 0 \<longleftrightarrow> d = 0"
proof (cases "d = 0")
  case True
  then show ?thesis by (simp add: fdiv_def fl_def)
next
  case False
  then have "1 \<le> \<bar>real_of_int d\<bar>" by linarith
  then have "1 / 1000 \<le> \<bar>real_of_int d / 1000\<bar>" by simp
  with pow2_tiny have "pow2 (- 1075) < \<bar>real_of_int d / 1000\<bar>" by linarith
  then have "fl (real_of_int d / 1000) \<noteq> 0" by (rule fl_nonzero)
  with False show ?thesis by (simp add: fdiv_def)
qed

lemma num_div_truthy:
  assumes el: "fl x \<noteq> 0" and y: "0 \<le> y" "y \<le> 1"
  shows "\<exists>r. num_div (fl x) y = Some r \<and> r \<noteq> Num 0"
proof (cases "y = 0")
  case True
  with el show ?thesis by (simp add: num_div_def)
next
  case False
  with y have yp: "0 < y" by simp
  have "pow2 (- 1074) \<le> \<bar>fl x\<bar>" by (rule fl_abs_ge [OF el])
  also have "\<bar>fl x\<bar> \<le> \<bar>fl x\<bar> / y"
  proof -
    have "y * \<bar>fl x\<bar> \<le> 1 * \<bar>fl x\<bar>"
      by (rule mult_right_mono) (use y in simp_all)
    then show ?thesis using yp by (simp add: field_simps)
  qed
  finally have "pow2 (- 1074) \<le> \<bar>fl x / y\<bar>" using yp by simp
  moreover have "pow2 (- 1075) < pow2 (- 1074)" by (simp add: pow2_powr)
  ultimately have "pow2 (- 1075) < \<bar>fl x / y\<bar>" by linarith
  then have "fl (fl x / y) \<noteq> 0" by (rule fl_nonzero)
  then have "rnd (fl x / y) \<noteq> Num 0" by (simp add: rnd_def)
  with False show ?thesis by (simp add: num_div_def)
qed


section \<open>Properties of page ranges\<close>


lemma distinct_set_add: "distinct s \<Longrightarrow> distinct (set_add s p)"
  by (simp add: set_add_def)


lemma distinct_add_page: "distinct s \<Longrightarrow> distinct (add_page n s p)"
  by (simp add: add_page_def distinct_set_add)


lemma distinct_foldl_add_page: "distinct s \<Longrightarrow> distinct (foldl (add_page n) s ps)"
  by (induction ps arbitrary: s) (auto simp: distinct_add_page)


lemma dropWhile_all: "(\<forall>x\<in>set (dropWhile P s). P x) \<longleftrightarrow> (\<forall>c\<in>set s. P c)"
  by (induction s) auto

lemma trim_empty_iff: "trim s = [] \<longleftrightarrow> (\<forall>c\<in>set s. is_space c)"
  by (simp add: trim_def dropWhile_eq_Nil_conv dropWhile_all)






















section \<open>Properties of the page operations\<close>

lemma select_pages_all: "select_pages doc [] = doc"
proof -
  have "map ((\<lambda>i. doc ! nat i) \<circ> ((\<lambda>p. p - 1) \<circ> (\<lambda>i. int i + 1))) [0..<length doc] = doc"
    by (simp add: comp_def map_nth)
  moreover have
    "filter (\<lambda>i. i \<ge> 0 \<and> i < int (length doc)) (map ((\<lambda>p. p - 1) \<circ> (\<lambda>i. int i + 1)) [0..<length doc])
     = map ((\<lambda>p. p - 1) \<circ> (\<lambda>i. int i + 1)) [0..<length doc]"
    by (rule filter_True) auto
  ultimately show ?thesis
    by (simp add: select_pages_def)
qed

lemma select_pages_given:
  "pages \<noteq> [] \<Longrightarrow>
   select_pages src pages =
     map (\<lambda>p. src ! nat (p - 1)) (filter (\<lambda>p. 1 \<le> p \<and> p \<le> int (length src)) pages)"
proof -
  assume ne: "pages \<noteq> []"
  have "(\<lambda>p::int. 0 \<le> p - 1 \<and> p - 1 < int (length src)) = (\<lambda>p. 1 \<le> p \<and> p \<le> int (length src))"
    by (rule ext) arith
  then show ?thesis
    using ne by (simp add: select_pages_def filter_map comp_def)
qed












subsection \<open>Part paths are distinct\<close>







subsection \<open>The loop of the split\<close>








text \<open>
  Claim C8, as the code has it. A range text that is empty or consists of white space
  only resolves to the empty sequence, whatever the page count; and \<open>subsetPdf\<close> with the
  empty page list selects every page of the source in its original order, so for a
  source with at least one page the document it writes has the pages of the source, in
  the same order, while for a source without pages it writes a document of one blank
  page.
\<close>

theorem blank_range_and_empty_subset:
  "((\<forall>c\<in>set s. is_space c) \<longrightarrow> parsePageRange s n = Some []) \<and>
   select_pages doc [] = doc \<and>
   (files inputPdf = Some doc \<longrightarrow>
      subsetPdf files inputPdf outputPdf [] =
        Inr (files(outputPdf \<mapsto> (if doc = [] then [BlankPage] else doc)), outputPdf))"
proof (intro conjI impI)
  assume "\<forall>c\<in>set s. is_space c"
  then have "trim s = []" by (simp only: trim_empty_iff)
  then show "parsePageRange s n = Some []" by (simp add: parsePageRange_def)
next
  show "select_pages doc [] = doc" by (rule select_pages_all)
next
  assume "files inputPdf = Some doc"
  then show "subsetPdf files inputPdf outputPdf [] =
        Inr (files(outputPdf \<mapsto> (if doc = [] then [BlankPage] else doc)), outputPdf)"
    by (simp add: subsetPdf_def select_pages_all save_doc_def)
qed

theorem blank_range_and_empty_subset_witness:
  "parsePageRange [CHR 0x20, CHR 0xA0] 7 = Some [] \<and>
   subsetPdf three_pages ''in.pdf'' ''out.pdf'' [] =
     Inr (three_pages(''out.pdf'' \<mapsto> [Page ''A'', Page ''B'', Page ''C'']), ''out.pdf'')"
proof -
  have sp: "\<forall>c\<in>set [CHR 0x20, CHR 0xA0]. is_space c" by (simp add: is_space_def)
  have rd: "three_pages ''in.pdf'' = Some [Page ''A'', Page ''B'', Page ''C'']"
    by (simp add: three_pages_def)
  note t = blank_range_and_empty_subset
             [of "[CHR 0x20, CHR 0xA0]" 7 "[Page ''A'', Page ''B'', Page ''C'']" three_pages
                 "''in.pdf''" "''out.pdf''"]
  from t sp have a: "parsePageRange [CHR 0x20, CHR 0xA0] 7 = Some []" by blast
  from t rd have "subsetPdf three_pages ''in.pdf'' ''out.pdf'' [] =
     Inr (three_pages(''out.pdf'' \<mapsto>
            (if [Page ''A'', Page ''B'', Page ''C''] = [] then [BlankPage]
             else [Page ''A'', Page ''B'', Page ''C''])), ''out.pdf'')" by blast
  then have c: "subsetPdf three_pages ''in.pdf'' ''out.pdf'' [] =
     Inr (three_pages(''out.pdf'' \<mapsto> [Page ''A'', Page ''B'', Page ''C'']), ''out.pdf'')" by simp
  from a c show ?thesis by (intro conjI)
qed

text \<open>
  A source without pages: the document written for the empty page list has one page,
  the blank page, where the source has none.
\<close>

theorem empty_subset_blank_page_counterexample:
  "subsetPdf no_pages ''in.pdf'' ''out.pdf'' [] =
     Inr (no_pages(''out.pdf'' \<mapsto> [BlankPage]), ''out.pdf'') \<and>
   no_pages ''in.pdf'' = Some [] \<and>
   length [BlankPage :: string page] \<noteq> length ([] :: string page list)"
  by (simp add: subsetPdf_def select_pages_def save_doc_def no_pages_def)

text \<open>
  Claim C4, as the code has it. \<open>subsetPdf\<close> does not fail on a page number outside the
  document: whenever the source can be read and the page list is not empty, it succeeds
  and writes the document made of the in-range pages of the list, in the order given;
  the out-of-range numbers are dropped by the filter on the 0-based indices, and when
  none is left the document written has one blank page.
\<close>

theorem subsetPdf_drops_out_of_range:
  "files inputPdf = Some src \<Longrightarrow> pages \<noteq> [] \<Longrightarrow>
   subsetPdf files inputPdf outputPdf pages =
     Inr (files(outputPdf \<mapsto>
            (if filter (\<lambda>p. 1 \<le> p \<and> p \<le> int (length src)) pages = [] then [BlankPage]
             else map (\<lambda>p. src ! nat (p - 1))
                    (filter (\<lambda>p. 1 \<le> p \<and> p \<le> int (length src)) pages))),
          outputPdf)"
  by (simp add: subsetPdf_def select_pages_given save_doc_def)

theorem subsetPdf_drops_out_of_range_witness:
  "subsetPdf three_pages ''in.pdf'' ''out.pdf'' [3, 9, 1] =
     Inr (three_pages(''out.pdf'' \<mapsto> [Page ''C'', Page ''A'']), ''out.pdf'') \<and>
   subsetPdf three_pages ''in.pdf'' ''out.pdf'' [0, - 1, 4] =
     Inr (three_pages(''out.pdf'' \<mapsto> [BlankPage]), ''out.pdf'')"
proof -
  have rd: "three_pages ''in.pdf'' = Some [Page ''A'', Page ''B'', Page ''C'']"
    by (simp add: three_pages_def)
  have ne: "[3, 9, 1::int] \<noteq> []" "[0, - 1, 4::int] \<noteq> []" by simp_all
  have a: "subsetPdf three_pages ''in.pdf'' ''out.pdf'' [3, 9, 1] =
     Inr (three_pages(''out.pdf'' \<mapsto> [Page ''C'', Page ''A'']), ''out.pdf'')"
    using subsetPdf_drops_out_of_range
            [of three_pages "''in.pdf''" "[Page ''A'', Page ''B'', Page ''C'']" "[3, 9, 1]" "''out.pdf''"]
          rd ne(1)
    by simp
  have b: "subsetPdf three_pages ''in.pdf'' ''out.pdf'' [0, - 1, 4] =
     Inr (three_pages(''out.pdf'' \<mapsto> [BlankPage]), ''out.pdf'')"
    using subsetPdf_drops_out_of_range
            [of three_pages "''in.pdf''" "[Page ''A'', Page ''B'', Page ''C'']" "[0, - 1, 4]" "''out.pdf''"]
          rd ne(2)
    by simp
  from a b show ?thesis by (intro conjI)
qed

text \<open>
  A three-page source and the page list 2, 7: page 7 does not exist, and the operation
  succeeds with a one-page document instead of failing.
\<close>

theorem subsetPdf_no_error_counterexample:
  "subsetPdf three_pages ''in.pdf'' ''out.pdf'' [2, 7] =
     Inr (three_pages(''out.pdf'' \<mapsto> [Page ''B'']), ''out.pdf'') \<and>
   \<not> 7 \<le> int (length [Page ''A'', Page ''B'', Page ''C''])"
  by (simp add: subsetPdf_def select_pages_def save_doc_def three_pages_def)

section \<open>Properties of category detection\<close>

text \<open>
  Claim C9. \<open>detectCategory\<close> returns the first category, in the order audio, image,
  document, archive, presentation, font, ebook, whose inputs contain the lower-cased
  extension of the path, and \<open>unknown\<close> when there is none. The document and the ebook
  capabilities share exactly the extensions pdf, epub, txt and html; a path with one of
  these extensions is detected as a document, so it is dispatched to the document
  converter; and the ebook category is detected for the extensions mobi and azw3 only.
\<close>

theorem detectCategory_first_match:
  "detectCategory p = first_supporting (ext p) capabilities \<and>
   set document_inputs \<inter> set ebook_inputs = set [''pdf'', ''epub'', ''txt'', ''html''] \<and>
   (ext p \<in> set [''pdf'', ''epub'', ''txt'', ''html''] \<longrightarrow>
      detectCategory p = Document \<and> converter_for (detectCategory p) = Some ConvertDocument) \<and>
   (detectCategory p = Ebook \<longleftrightarrow> ext p \<in> set [''mobi'', ''azw3''])"
proof (intro conjI impI)
  show "detectCategory p = first_supporting (ext p) capabilities"
    by (simp add: detectCategory_def capabilities_def Let_def)
next
  show "set document_inputs \<inter> set ebook_inputs = set [''pdf'', ''epub'', ''txt'', ''html'']"
    by (auto simp: document_inputs_def ebook_inputs_def)
next
  assume e: "ext p \<in> set [''pdf'', ''epub'', ''txt'', ''html'']"
  then show d: "detectCategory p = Document"
    by (auto simp: detectCategory_def Let_def audio_inputs_def image_inputs_def document_inputs_def)
  then show "converter_for (detectCategory p) = Some ConvertDocument"
    by simp
next
  show "detectCategory p = Ebook \<longleftrightarrow> ext p \<in> set [''mobi'', ''azw3'']"
    by (auto simp: detectCategory_def Let_def audio_inputs_def image_inputs_def document_inputs_def
          archive_inputs_def presentation_inputs_def font_inputs_def ebook_inputs_def)
qed

theorem detectCategory_witness:
  "ext ''uploads/17-Report.PDF'' = ''pdf'' \<and>
   detectCategory ''uploads/17-Report.PDF'' = Document \<and>
   converter_for (detectCategory ''uploads/17-Report.PDF'') = Some ConvertDocument \<and>
   detectCategory ''uploads/17-Report.PDF'' \<noteq> Ebook"
proof -
  have e: "ext ''uploads/17-Report.PDF'' = ''pdf''" by code_simp
  then have m: "ext ''uploads/17-Report.PDF'' \<in> set [''pdf'', ''epub'', ''txt'', ''html'']"
    by simp
  from detectCategory_first_match [of "''uploads/17-Report.PDF''"] m
  have d: "detectCategory ''uploads/17-Report.PDF'' = Document \<and>
           converter_for (detectCategory ''uploads/17-Report.PDF'') = Some ConvertDocument"
    by blast
  then have "detectCategory ''uploads/17-Report.PDF'' \<noteq> Ebook" by simp
  with e d show ?thesis by blast
qed

section \<open>Properties of the job registry\<close>

lemma clamp_percent_id: "0 \<le> p \<Longrightarrow> p \<le> 100 \<Longrightarrow> clamp_percent p = p"
  by (simp add: clamp_percent_def)

lemma clamp_percent_mono: "p \<le> q \<Longrightarrow> clamp_percent p \<le> clamp_percent q"
  by (simp add: clamp_percent_def max_def min_def)

lemma clamp_percent_nonneg: "0 \<le> clamp_percent p"
  by (simp add: clamp_percent_def)

lemma eta_of_closed:
  assumes "0 \<le> p" and "p \<le> 100"
  shows "eta_of p (fdiv (real_of_int d) 1000) =
           (if p > 0 \<and> d \<noteq> 0
            then map_option (\<lambda>rate. max0_round (num_sub rate (fdiv (real_of_int d) 1000)))
                   (num_div (fdiv (real_of_int d) 1000) (fdiv p 100))
            else None) \<and>
         (d \<noteq> 0 \<longrightarrow> num_div (fdiv (real_of_int d) 1000) (fdiv p 100) \<noteq> None)"
proof (cases "d = 0")
  case True
  have z: "rnd 0 = Num 0" by (simp add: rnd_def fl_def overflow_threshold_def)
  from True have "fdiv (real_of_int d) 1000 = 0" using fdiv_ms_eq_0_iff [of d] by blast
  then show ?thesis using True by (simp add: eta_of_def num_div_def z)
next
  case False
  then have nz: "fl (real_of_int d / 1000) \<noteq> 0"
    using fdiv_ms_eq_0_iff [of d] by (simp add: fdiv_def)
  from fdiv_percent [OF assms] have y: "0 \<le> fdiv p 100" "fdiv p 100 \<le> 1" by simp_all
  from num_div_truthy [OF nz y] obtain r
    where r: "num_div (fl (real_of_int d / 1000)) (fdiv p 100) = Some r" "r \<noteq> Num 0" by blast
  then show ?thesis using False by (simp add: eta_of_def fdiv_def [of "real_of_int d" 1000])
qed

text \<open>
  Claim C2, as the code has it. For a job in the store and a progress report \<open>p\<close> between
  0 and 100, the callback sets the progress to \<open>p\<close> and, with \<open>elapsed\<close> the seconds
  since the start of the run, sets \<open>etaSeconds\<close> to
  \<open>max 0 (round (elapsed / (p / 100) - elapsed))\<close>, computed in binary64, when \<open>p\<close> is
  positive and \<open>elapsed\<close> is not 0, and to \<open>null\<close> when \<open>p\<close> is 0 or \<open>elapsed\<close> is 0; no
  other field changes. When \<open>elapsed\<close> is not 0 the quotient is a number, not \<open>NaN\<close>.
\<close>

theorem progress_report_eta:
  assumes "js i = Some j" and "0 \<le> p" and "p \<le> 100"
    and "elapsed = fdiv (real_of_int (now - started)) 1000"
  shows "progress_cb js i started now p =
           js(i \<mapsto> j\<lparr>progress := p,
                        etaSeconds :=
                          (if p > 0 \<and> now \<noteq> started
                           then map_option (\<lambda>rate. max0_round (num_sub rate elapsed))
                                  (num_div elapsed (fdiv p 100))
                           else None)\<rparr>) \<and>
         (now \<noteq> started \<longrightarrow> num_div elapsed (fdiv p 100) \<noteq> None)"
proof -
  note c = eta_of_closed [OF assms(2,3), of "now - started"]
  from c have e: "eta_of p elapsed =
           (if p > 0 \<and> now \<noteq> started
            then map_option (\<lambda>rate. max0_round (num_sub rate elapsed)) (num_div elapsed (fdiv p 100))
            else None)"
    by (simp add: assms(4))
  from c have n: "now \<noteq> started \<longrightarrow> num_div elapsed (fdiv p 100) \<noteq> None"
    by (simp add: assms(4))
  have "progress_cb js i started now p = js(i \<mapsto> j\<lparr>progress := p, etaSeconds := eta_of p elapsed\<rparr>)"
    using assms by (simp add: progress_cb_def Let_def clamp_percent_id)
  with e n show ?thesis by (simp only: simp_thms)
qed

lemma one_job_lookup: "one_job ''j1'' = Some queued_job"
  by (simp add: one_job_def queued_job_def newJob_def Let_def)

theorem progress_report_eta_witness:
  "progress_cb one_job ''j1'' 0 3500 7 =
     one_job(''j1'' \<mapsto> queued_job\<lparr>progress := 7, etaSeconds := Some 46\<rparr>) \<and>
   max 0 (round (real_of_int (3500 - 0) / 1000 / (7 / 100) - real_of_int (3500 - 0) / 1000)) = (47::int)"
proof -
  note j = one_job_lookup
  have r: "map_option (\<lambda>rate. max0_round (num_sub rate (fdiv (real_of_int (3500 - 0)) 1000)))
             (num_div (fdiv (real_of_int (3500 - 0)) 1000) (fdiv 7 100)) = Some 46"
    by code_simp
  have x: "max 0 (round (real_of_int (3500 - 0) / 1000 / (7 / 100) - real_of_int (3500 - 0) / 1000)) = (47::int)"
    by code_simp
  have p: "(0::real) \<le> 7" "(7::real) \<le> 100" by simp_all
  from progress_report_eta
         [where js = one_job and i = "''j1''" and j = queued_job and p = 7
            and started = 0 and now = 3500, OF j p refl]
  have "progress_cb one_job ''j1'' 0 3500 7 =
     one_job(''j1'' \<mapsto> queued_job\<lparr>progress := 7, etaSeconds := Some 46\<rparr>)"
    by (simp only: r) simp
  with x show ?thesis by (simp only: simp_thms)
qed

text \<open>
  An image job right after its start: the run reports 10 in the millisecond in which it
  started, the elapsed time is 0, the rate is 0 and \<open>etaSeconds\<close> is \<open>null\<close>, where the
  formula for a positive \<open>p\<close> gives 0.
\<close>

theorem progress_report_eta_counterexample:
  "map_option (\<lambda>j. (status j, progress j, etaSeconds j))
     (fst (run_events ''j1'' Image one_job [Start 5]) ''j1'') = Some (Running, 10, None) \<and>
   map_option (\<lambda>rate. max0_round (num_sub rate (fdiv (real_of_int (5 - 5)) 1000)))
     (num_div (fdiv (real_of_int (5 - 5)) 1000) (fdiv 10 100)) = Some 0"
  by code_simp

text \<open>
  A report of the smallest positive number, three and a half seconds after the start:
  the fraction \<open>p / 100\<close> underflows to 0, the rate is \<open>Infinity\<close> and so is \<open>etaSeconds\<close>.
\<close>

lemma eta_infinite_on_underflow:
  "progress_cb one_job ''j1'' 0 3500 (pow2 (- 1074)) =
     one_job(''j1'' \<mapsto> queued_job\<lparr>progress := pow2 (- 1074), etaSeconds := Some \<infinity>\<rparr>)"
proof -
  have "pow2 (- 1074) = 2 * pow2 (- 1075)"
    using pow2_add [of "- 1075" 1] by (simp add: pow2_def)
  then have "\<bar>pow2 (- 1074) / 100\<bar> \<le> pow2 (- 1075)"
    using pow2_pos [of "- 1075"] by simp
  then have f: "fdiv (pow2 (- 1074)) 100 = 0" by (simp add: fdiv_def fl_zero)
  have "fdiv (real_of_int 3500) 1000 \<noteq> 0" by (simp only: fdiv_ms_eq_0_iff)
  moreover have "0 \<le> fdiv (real_of_int 3500) 1000" by (simp add: fdiv_def fl_nonneg)
  ultimately have e: "0 < fdiv (real_of_int 3500) 1000" by simp
  have c: "clamp_percent (pow2 (- 1074)) = pow2 (- 1074)"
  proof (rule clamp_percent_id)
    show "0 \<le> pow2 (- 1074)" using pow2_pos [of "- 1074"] by simp
    have "pow2 (- 1074) \<le> pow2 0" by (rule pow2_mono) simp
    then show "pow2 (- 1074) \<le> 100" by (simp add: pow2_def)
  qed
  have "eta_of (pow2 (- 1074)) (fdiv (real_of_int 3500) 1000) = Some \<infinity>"
    using e f pow2_pos [of "- 1074"] by (simp add: eta_of_def num_div_def num_sub_def max0_round_def)
  then show ?thesis by (simp add: progress_cb_def one_job_lookup Let_def c)
qed

lemma progress_cb_lookup:
  "js i = Some j \<Longrightarrow>
   \<exists>j'. progress_cb js i started now p i = Some j' \<and> progress j' = clamp_percent p"
  by (simp add: progress_cb_def Let_def)

lemma progress_trace_clamped:
  "js i = Some j \<Longrightarrow> progress_trace js i started ups = map (\<lambda>u. clamp_percent (fst u)) ups"
proof (induction ups arbitrary: js j)
  case Nil
  show ?case by simp
next
  case (Cons u ups)
  obtain p now where u: "u = (p, now)" by (cases u)
  from progress_cb_lookup [where js = js and i = i and j = j and started = started
                               and now = now and p = p] Cons.prems
  obtain j' where j': "progress_cb js i started now p i = Some j'" "progress j' = clamp_percent p"
    by blast
  from Cons.IH [of "progress_cb js i started now p" j'] j'(1)
  have "progress_trace (progress_cb js i started now p) i started ups
          = map (\<lambda>u. clamp_percent (fst u)) ups" by blast
  with j' u show ?case by (simp add: Let_def)
qed

lemma sorted_map_clamp:
  "sorted (map fst ups) \<Longrightarrow> sorted (map (\<lambda>u. clamp_percent (fst u)) (ups :: (real \<times> int) list))"
  by (induction ups) (auto simp: clamp_percent_mono)

lemma run_start_lookup:
  "run_start js i = Some js1 \<Longrightarrow> \<exists>j1. js1 i = Some j1 \<and> status j1 = Running \<and> progress j1 = 0"
  by (auto simp: run_start_def split: option.splits if_splits)

text \<open>
  Claim C6, as the code has it. After the start of a run the progress is 0, and each
  progress report sets it to the reported value clamped to the interval from 0 to 100,
  whatever it was before; so the progress values seen over a series of reports are
  non-decreasing whenever the reported values are.
\<close>

theorem progress_follows_reports:
  assumes "run_start js i = Some js1"
  shows "progress_trace js1 i started ups = map (\<lambda>u. clamp_percent (fst u)) ups \<and>
         (sorted (map fst ups) \<longrightarrow> sorted (0 # progress_trace js1 i started ups))"
proof -
  from run_start_lookup [where js = js and i = i and ?js1.0 = js1] assms obtain j1 where j1: "js1 i = Some j1" by blast
  have tr: "progress_trace js1 i started ups = map (\<lambda>u. clamp_percent (fst u)) ups"
    using progress_trace_clamped [where js = js1 and i = i and j = j1] j1 by blast
  have "sorted (map fst ups) \<longrightarrow> sorted (0 # map (\<lambda>u. clamp_percent (fst u)) ups)"
    by (auto simp: sorted_map_clamp clamp_percent_nonneg)
  with tr show ?thesis by simp
qed

theorem progress_follows_reports_witness:
  "progress_trace (the (run_start one_job ''j1'')) ''j1'' 0 [(5, 10), (40, 2000), (100, 9000)]
     = [5, 40, 100] \<and>
   sorted (0 # progress_trace (the (run_start one_job ''j1'')) ''j1'' 0 [(5, 10), (40, 2000), (100, 9000)])"
proof -
  have s: "run_start one_job ''j1'' = Some (the (run_start one_job ''j1''))"
    by (simp add: run_start_def one_job_lookup queued_job_def newJob_def Let_def)
  have srt: "sorted (map fst [(5, 10), (40, 2000), (100::real, 9000::int)])" by simp
  have cl: "map (\<lambda>u. clamp_percent (fst u)) [(5, 10), (40, 2000), (100::real, 9000::int)] = [5, 40, 100]"
    by (simp add: clamp_percent_def)
  from progress_follows_reports
         [where js = one_job and i = "''j1''" and ?js1.0 = "the (run_start one_job ''j1'')"
            and started = 0 and ups = "[(5, 10), (40, 2000), (100, 9000)]", OF s]
       srt cl
  show ?thesis by simp
qed

text \<open>
  A running audio job whose converter reports 50 and then 30: the progress goes from 50
  down to 30 while the job is running.
\<close>

theorem progress_decreases_counterexample:
  "map_option status (fst (run_events ''j1'' Audio one_job [Start 0, Report 50 1000, Report 30 2000]) ''j1'')
     = Some Running \<and>
   map_option progress (fst (run_events ''j1'' Audio one_job [Start 0, Report 50 1000]) ''j1'') = Some 50 \<and>
   map_option progress (fst (run_events ''j1'' Audio one_job [Start 0, Report 50 1000, Report 30 2000]) ''j1'')
     = Some 30"
  by code_simp

text \<open>
  Claim C1 at a concrete run. An audio job is started, reports 50 percent after ten
  seconds and is cancelled: its status is \<open>cancelled\<close> and its \<open>etaSeconds\<close> is 10. When the
  converter then rejects, the \<open>catch\<close> block does not look at the status: the job becomes
  \<open>failed\<close>, its \<open>etaSeconds\<close> becomes \<open>null\<close> and the message is recorded. When the
  converter resolves instead, the check of the status before the result is stored
  leaves the cancelled job as it is.
\<close>

theorem cancelled_job_overwritten_by_failure:
  "map_option (\<lambda>j. (status j, etaSeconds j, error j))
     (fst (run_events ''j1'' Audio one_job [Start 0, Report 50 10000, CancelRequest]) ''j1'')
     = Some (Cancelled, Some 10, None) \<and>
   map_option (\<lambda>j. (status j, etaSeconds j, error j))
     (fst (run_events ''j1'' Audio one_job
            [Start 0, Report 50 10000, CancelRequest, Reject ''Conversion failed: killed'']) ''j1'')
     = Some (Failed, None, Some ''Conversion failed: killed'') \<and>
   map_option (\<lambda>j. (status j, progress j, etaSeconds j, outputPath j))
     (fst (run_events ''j1'' Audio one_job
            [Start 0, Report 50 10000, CancelRequest, Resolve (ResultPath ''out.mp3'') 20000]) ''j1'')
     = Some (Cancelled, 50, Some 10, None)"
  by code_simp

section \<open>Properties of the bounded worker pool\<close>

subsection \<open>One run of the launch loop\<close>

lemma launch_closed:
  "launch items limit s =
     s\<lparr>nxt := nxt s + launch_count items limit s,
       active := active s + int (launch_count items limit s),
       inflight := inflight s @ [nxt s ..< nxt s + launch_count items limit s]\<rparr>"
proof (induction items limit s rule: launch.induct)
  case (1 items limit s)
  show ?case
  proof (cases "active s < limit \<and> nxt s < length items")
    case False
    then have "launch_count items limit s = 0"
      by (auto simp: launch_count_def)
    moreover from False have c: "(active s < limit \<and> nxt s < length items) = False" by simp
    have "launch items limit s = s"
      by (subst launch.simps) (simp only: c if_False)
    ultimately show ?thesis by simp
  next
    case True
    let ?s' = "s\<lparr>nxt := nxt s + 1, active := active s + 1, inflight := inflight s @ [nxt s]\<rparr>"
    have n: "launch_count items limit s = Suc (launch_count items limit ?s')"
      using True by (auto simp: launch_count_def min_def)
    have u: "[nxt s ..< nxt s + Suc (launch_count items limit ?s')]
             = nxt s # [Suc (nxt s) ..< Suc (nxt s) + launch_count items limit ?s']"
      by (simp add: upt_conv_Cons)
    from True have c: "(active s < limit \<and> nxt s < length items) = True" by simp
    have "launch items limit s = launch items limit ?s'"
      by (subst launch.simps) (simp only: c if_True)
    also have "\<dots> = ?s'\<lparr>nxt := nxt ?s' + launch_count items limit ?s',
       active := active ?s' + int (launch_count items limit ?s'),
       inflight := inflight ?s' @ [nxt ?s' ..< nxt ?s' + launch_count items limit ?s']\<rparr>"
      using True by (rule "1.IH")
    also have "\<dots> = s\<lparr>nxt := nxt s + launch_count items limit s,
       active := active s + int (launch_count items limit s),
       inflight := inflight s @ [nxt s ..< nxt s + launch_count items limit s]\<rparr>"
      unfolding n u by simp
    finally show ?thesis .
  qed
qed

lemma launch_fields:
  "nxt (launch items limit s) = nxt s + launch_count items limit s"
  "active (launch items limit s) = active s + int (launch_count items limit s)"
  "inflight (launch items limit s) = inflight s @ [nxt s ..< nxt s + launch_count items limit s]"
  "results (launch items limit s) = results s"
  "outcome (launch items limit s) = outcome s"
  by (subst launch_closed, simp)+

lemma finite_failed: "finite (failed s)"
proof -
  have "failed s \<subseteq> {..<nxt s}" by (auto simp: failed_def)
  then show ?thesis by (rule finite_subset) simp
qed

lemma failed_launch: "failed (launch items limit s) = failed s"
  by (auto simp: failed_def launch_fields)

lemma launch_count_bounds:
  "launch_count items limit s \<le> length items - nxt s"
  "active s \<le> limit \<Longrightarrow> int (launch_count items limit s) \<le> limit - active s"
proof -
  show "launch_count items limit s \<le> length items - nxt s"
    by (simp add: launch_count_def)
  assume "active s \<le> limit"
  moreover have "launch_count items limit s \<le> nat (limit - active s)"
    by (simp add: launch_count_def)
  ultimately show "int (launch_count items limit s) \<le> limit - active s"
    by linarith
qed

lemma launch_fills_window:
  assumes "active s \<le> limit"
    and "nxt s + launch_count items limit s < length items"
  shows "limit \<le> active s + int (launch_count items limit s)"
proof -
  from assms(2) have "launch_count items limit s = nat (limit - active s)"
    by (simp add: launch_count_def min_def split: if_splits)
  with assms(1) show ?thesis by simp
qed

lemma pool_ok_launch:
  assumes ok: "pool_ok items limit mapper s"
  shows "pool_inv items limit mapper (launch items limit s)"
proof -
  let ?n = "launch_count items limit s"
  let ?s' = "launch items limit s"
  from ok have a: "nxt s \<le> length items"
    and b: "length (results s) = length items"
    and c1: "distinct (inflight s)"
    and c2: "\<forall>k\<in>set (inflight s). k < nxt s \<and> results s ! k = None"
    and d: "\<forall>k. nxt s \<le> k \<and> k < length items \<longrightarrow> results s ! k = None"
    and e: "active s = int (length (inflight s)) + int (card (failed s))"
    and f: "active s \<le> limit"
    and h: "\<forall>k r. k < length items \<and> results s ! k = Some r \<longrightarrow> mapper (items ! k) k = Inr r"
    and i: "\<forall>k\<in>failed s. isl (mapper (items ! k) k)"
    and j: "\<forall>rs. outcome s = Resolved rs \<longrightarrow>
        rs = results s \<and> inflight s = [] \<and> nxt s = length items \<and>
        (\<forall>k<length items. results s ! k \<noteq> None)"
    unfolding pool_ok_def by blast+
  have n1: "?n \<le> length items - nxt s" by (rule launch_count_bounds)
  have n2: "int ?n \<le> limit - active s" using f by (rule launch_count_bounds)
  have a': "nxt ?s' \<le> length items" using a n1 by (simp add: launch_fields)
  have b': "length (results ?s') = length items" using b by (simp add: launch_fields)
  have c1': "distinct (inflight ?s')"
    using c1 c2 by (auto simp: launch_fields)
  have c2': "\<forall>k\<in>set (inflight ?s'). k < nxt ?s' \<and> results ?s' ! k = None"
  proof
    fix k assume "k \<in> set (inflight ?s')"
    then consider "k \<in> set (inflight s)" | "nxt s \<le> k" "k < nxt s + ?n"
      by (auto simp: launch_fields)
    then show "k < nxt ?s' \<and> results ?s' ! k = None"
    proof cases
      case 1
      with c2 have "k < nxt s" "results s ! k = None" by blast+
      then show ?thesis by (simp add: launch_fields)
    next
      case 2
      with n1 a have "k < length items" by simp
      with 2 d show ?thesis by (simp add: launch_fields)
    qed
  qed
  have d': "\<forall>k. nxt ?s' \<le> k \<and> k < length items \<longrightarrow> results ?s' ! k = None"
    using d by (simp add: launch_fields)
  have e': "active ?s' = int (length (inflight ?s')) + int (card (failed ?s'))"
    using e by (simp add: launch_fields failed_launch)
  have f': "active ?s' \<le> limit" using n2 by (simp add: launch_fields)
  have h': "\<forall>k r. k < length items \<and> results ?s' ! k = Some r \<longrightarrow> mapper (items ! k) k = Inr r"
    using h by (simp add: launch_fields)
  have i': "\<forall>k\<in>failed ?s'. isl (mapper (items ! k) k)"
    using i by (simp add: failed_launch)
  have j': "\<forall>rs. outcome ?s' = Resolved rs \<longrightarrow>
        rs = results ?s' \<and> inflight ?s' = [] \<and> nxt ?s' = length items \<and>
        (\<forall>k<length items. results ?s' ! k \<noteq> None)"
  proof (intro allI impI)
    fix rs assume "outcome ?s' = Resolved rs"
    then have o: "outcome s = Resolved rs" by (simp add: launch_fields)
    with j have "nxt s = length items" by blast
    then have "?n = 0" using n1 by simp
    with o j show "rs = results ?s' \<and> inflight ?s' = [] \<and> nxt ?s' = length items \<and>
        (\<forall>k<length items. results ?s' ! k \<noteq> None)"
      by (simp add: launch_fields)
  qed
  have g': "nxt ?s' < length items \<longrightarrow> limit \<le> active ?s'"
    using launch_fills_window [OF f, of items] by (simp add: launch_fields)
  from a' b' c1' c2' d' e' f' h' i' j' have "pool_ok items limit mapper ?s'"
    unfolding pool_ok_def by blast
  with g' show ?thesis by (simp add: pool_inv_def)
qed

subsection \<open>A mapper call settles\<close>

lemma settle_fields:
  "results (settle out s) = results s"
  "nxt (settle out s) = nxt s"
  "active (settle out s) = active s"
  "inflight (settle out s) = inflight s"
  "outcome (settle out s) = (if outcome s = Pending then out else outcome s)"
  by (simp_all add: settle_def)

lemma failed_settle: "failed (settle out s) = failed s"
  by (simp add: failed_def settle_fields)

lemma length_removeAll_distinct:
  "distinct xs \<Longrightarrow> x \<in> set xs \<Longrightarrow> length (removeAll x xs) = length xs - 1"
  by (simp add: distinct_remove1_removeAll [symmetric] length_remove1)

lemma pool_inv_reject:
  assumes inv: "pool_inv items limit mapper s"
    and idx: "idx \<in> set (inflight s)"
    and rej: "mapper (items ! idx) idx = Inl err"
  shows "pool_inv items limit mapper (settle (Rejected err) (s\<lparr>inflight := removeAll idx (inflight s)\<rparr>))"
proof -
  let ?s1 = "s\<lparr>inflight := removeAll idx (inflight s)\<rparr>"
  let ?s' = "settle (Rejected err) ?s1"
  from inv have a: "nxt s \<le> length items"
    and b: "length (results s) = length items"
    and c1: "distinct (inflight s)"
    and c2: "\<forall>k\<in>set (inflight s). k < nxt s \<and> results s ! k = None"
    and d: "\<forall>k. nxt s \<le> k \<and> k < length items \<longrightarrow> results s ! k = None"
    and e: "active s = int (length (inflight s)) + int (card (failed s))"
    and f: "active s \<le> limit"
    and g: "nxt s < length items \<longrightarrow> limit \<le> active s"
    and h: "\<forall>k r. k < length items \<and> results s ! k = Some r \<longrightarrow> mapper (items ! k) k = Inr r"
    and i: "\<forall>k\<in>failed s. isl (mapper (items ! k) k)"
    and j: "\<forall>rs. outcome s = Resolved rs \<longrightarrow>
        rs = results s \<and> inflight s = [] \<and> nxt s = length items \<and>
        (\<forall>k<length items. results s ! k \<noteq> None)"
    unfolding pool_inv_def pool_ok_def by blast+
  from c2 idx have idx1: "idx < nxt s" and idx2: "results s ! idx = None" by blast+
  have fs: "failed ?s' = insert idx (failed s)"
    using idx1 idx2 by (auto simp: failed_def settle_fields)
  have nf: "idx \<notin> failed s" using idx by (simp add: failed_def)
  have card: "card (failed ?s') = Suc (card (failed s))"
    unfolding fs by (simp add: nf finite_failed)
  have len: "length (inflight ?s') = length (inflight s) - 1"
    using c1 idx by (simp add: settle_fields length_removeAll_distinct)
  have pos: "0 < length (inflight s)" using idx by (cases "inflight s") auto
  have a': "nxt ?s' \<le> length items" using a by (simp add: settle_fields)
  have b': "length (results ?s') = length items" using b by (simp add: settle_fields)
  have c1': "distinct (inflight ?s')" using c1 by (simp add: settle_fields distinct_removeAll)
  have c2': "\<forall>k\<in>set (inflight ?s'). k < nxt ?s' \<and> results ?s' ! k = None"
    using c2 by (simp add: settle_fields)
  have d': "\<forall>k. nxt ?s' \<le> k \<and> k < length items \<longrightarrow> results ?s' ! k = None"
    using d by (simp add: settle_fields)
  have len': "int (length (inflight ?s')) = int (length (inflight s)) - 1"
    using len pos by linarith
  have act: "active ?s' = active s" by (simp add: settle_fields)
  have e': "active ?s' = int (length (inflight ?s')) + int (card (failed ?s'))"
    unfolding card len' act using e by simp
  have f': "active ?s' \<le> limit" using f by (simp add: settle_fields)
  have g': "nxt ?s' < length items \<longrightarrow> limit \<le> active ?s'" using g by (simp add: settle_fields)
  have h': "\<forall>k r. k < length items \<and> results ?s' ! k = Some r \<longrightarrow> mapper (items ! k) k = Inr r"
    using h by (simp add: settle_fields)
  have i': "\<forall>k\<in>failed ?s'. isl (mapper (items ! k) k)"
    unfolding fs using i rej by simp
  have j': "\<forall>rs. outcome ?s' = Resolved rs \<longrightarrow>
        rs = results ?s' \<and> inflight ?s' = [] \<and> nxt ?s' = length items \<and>
        (\<forall>k<length items. results ?s' ! k \<noteq> None)"
  proof (intro allI impI)
    fix rs assume "outcome ?s' = Resolved rs"
    then have "outcome s = Resolved rs" by (simp add: settle_fields split: if_splits)
    with j have "inflight s = []" by blast
    with idx show "rs = results ?s' \<and> inflight ?s' = [] \<and> nxt ?s' = length items \<and>
        (\<forall>k<length items. results ?s' ! k \<noteq> None)" by simp
  qed
  from a' b' c1' c2' d' e' f' h' i' j' have "pool_ok items limit mapper ?s'"
    unfolding pool_ok_def by blast
  with g' show ?thesis by (simp add: pool_inv_def)
qed

lemma pool_ok_success:
  assumes inv: "pool_inv items limit mapper s"
    and idx: "idx \<in> set (inflight s)"
    and res: "mapper (items ! idx) idx = Inr res"
    and s2: "s2 = s\<lparr>inflight := removeAll idx (inflight s),
                     results := (results s)[idx := Some res], active := active s - 1\<rparr>"
  shows "pool_ok items limit mapper s2 \<and> outcome s2 = outcome s \<and> (\<forall>rs. outcome s \<noteq> Resolved rs)"
proof -
  from inv have a: "nxt s \<le> length items"
    and b: "length (results s) = length items"
    and c1: "distinct (inflight s)"
    and c2: "\<forall>k\<in>set (inflight s). k < nxt s \<and> results s ! k = None"
    and d: "\<forall>k. nxt s \<le> k \<and> k < length items \<longrightarrow> results s ! k = None"
    and e: "active s = int (length (inflight s)) + int (card (failed s))"
    and f: "active s \<le> limit"
    and h: "\<forall>k r. k < length items \<and> results s ! k = Some r \<longrightarrow> mapper (items ! k) k = Inr r"
    and i: "\<forall>k\<in>failed s. isl (mapper (items ! k) k)"
    and j: "\<forall>rs. outcome s = Resolved rs \<longrightarrow>
        rs = results s \<and> inflight s = [] \<and> nxt s = length items \<and>
        (\<forall>k<length items. results s ! k \<noteq> None)"
    unfolding pool_inv_def pool_ok_def by blast+
  from c2 idx have idx1: "idx < nxt s" by blast
  with a b have idx3: "idx < length (results s)" by simp
  have fld: "nxt s2 = nxt s" "inflight s2 = removeAll idx (inflight s)"
    "results s2 = (results s)[idx := Some res]" "active s2 = active s - 1" "outcome s2 = outcome s"
    by (simp_all add: s2)
  have fs: "failed s2 = failed s"
    using idx idx3 by (auto simp: failed_def fld nth_list_update)
  have pos: "0 < length (inflight s)" using idx by (cases "inflight s") auto
  have "length (inflight s2) = length (inflight s) - 1"
    using c1 idx by (simp add: fld length_removeAll_distinct)
  with pos have len': "int (length (inflight s2)) = int (length (inflight s)) - 1" by linarith
  have a': "nxt s2 \<le> length items" using a by (simp add: fld)
  have b': "length (results s2) = length items" using b by (simp add: fld)
  have c1': "distinct (inflight s2)" using c1 by (simp add: fld distinct_removeAll)
  have c2': "\<forall>k\<in>set (inflight s2). k < nxt s2 \<and> results s2 ! k = None"
    using c2 by (auto simp: fld nth_list_update)
  have d': "\<forall>k. nxt s2 \<le> k \<and> k < length items \<longrightarrow> results s2 ! k = None"
    using d idx1 by (auto simp: fld nth_list_update)
  have e': "active s2 = int (length (inflight s2)) + int (card (failed s2))"
    unfolding fs len' using e by (simp add: fld)
  have f': "active s2 \<le> limit" using f by (simp add: fld)
  have h': "\<forall>k r. k < length items \<and> results s2 ! k = Some r \<longrightarrow> mapper (items ! k) k = Inr r"
  proof (intro allI impI)
    fix k r assume kr: "k < length items \<and> results s2 ! k = Some r"
    show "mapper (items ! k) k = Inr r"
    proof (cases "k = idx")
      case True
      with kr idx3 have "r = res" by (simp add: fld)
      with True res show ?thesis by simp
    next
      case False
      with kr have "results s ! k = Some r" by (simp add: fld)
      with kr h show ?thesis by blast
    qed
  qed
  have i': "\<forall>k\<in>failed s2. isl (mapper (items ! k) k)"
    unfolding fs using i by simp
  have nres: "\<forall>rs. outcome s \<noteq> Resolved rs"
  proof (intro allI notI)
    fix rs assume "outcome s = Resolved rs"
    with j have "inflight s = []" by blast
    with idx show False by simp
  qed
  then have j': "\<forall>rs. outcome s2 = Resolved rs \<longrightarrow>
        rs = results s2 \<and> inflight s2 = [] \<and> nxt s2 = length items \<and>
        (\<forall>k<length items. results s2 ! k \<noteq> None)"
    by (simp add: fld)
  from a' b' c1' c2' d' e' f' h' i' j' have "pool_ok items limit mapper s2"
    unfolding pool_ok_def by blast
  with nres show ?thesis by (simp add: fld)
qed

lemma pool_inv_resolve:
  assumes ok: "pool_ok items limit mapper s2"
    and fin: "length items \<le> nxt s2" "active s2 = 0"
  shows "pool_inv items limit mapper (settle (Resolved (results s2)) s2)"
proof -
  let ?s' = "settle (Resolved (results s2)) s2"
  from ok have a: "nxt s2 \<le> length items"
    and e: "active s2 = int (length (inflight s2)) + int (card (failed s2))"
    and j: "\<forall>rs. outcome s2 = Resolved rs \<longrightarrow>
        rs = results s2 \<and> inflight s2 = [] \<and> nxt s2 = length items \<and>
        (\<forall>k<length items. results s2 ! k \<noteq> None)"
    unfolding pool_ok_def by blast+
  from e fin(2) have "length (inflight s2) = 0" and c0: "card (failed s2) = 0" by linarith+
  then have em: "inflight s2 = []" by simp
  from c0 have fe: "failed s2 = {}" using finite_failed [of s2] by simp
  from a fin(1) have nx: "nxt s2 = length items" by simp
  have full: "\<forall>k<length items. results s2 ! k \<noteq> None"
  proof (intro allI impI notI)
    fix k assume "k < length items" "results s2 ! k = None"
    with nx em have "k \<in> failed s2" by (simp add: failed_def)
    with fe show False by simp
  qed
  have j': "\<forall>rs. outcome ?s' = Resolved rs \<longrightarrow>
        rs = results ?s' \<and> inflight ?s' = [] \<and> nxt ?s' = length items \<and>
        (\<forall>k<length items. results ?s' ! k \<noteq> None)"
    using j em nx full by (auto simp: settle_fields split: if_splits)
  have "pool_ok items limit mapper ?s'"
    using ok j' unfolding pool_ok_def by (simp add: settle_fields failed_settle)
  then show ?thesis using nx by (simp add: pool_inv_def settle_fields)
qed

lemma pool_inv_on_settled:
  assumes inv: "pool_inv items limit mapper s"
  shows "pool_inv items limit mapper (on_settled items limit mapper s idx)"
proof (cases "idx \<in> set (inflight s)")
  case False
  with inv show ?thesis by (simp add: on_settled_def)
next
  case True
  show ?thesis
  proof (cases "mapper (items ! idx) idx")
    case (Inl err)
    with True inv show ?thesis
      by (simp add: on_settled_def pool_inv_reject)
  next
    case (Inr res)
    define s2 where "s2 = s\<lparr>inflight := removeAll idx (inflight s),
                     results := (results s)[idx := Some res], active := active s - 1\<rparr>"
    from pool_ok_success [OF inv True Inr s2_def] have ok: "pool_ok items limit mapper s2" by blast
    have c: "on_settled items limit mapper s idx =
             (if nxt s2 \<ge> length items \<and> active s2 = 0
              then settle (Resolved (results s2)) s2 else launch items limit s2)"
      using True Inr by (simp add: on_settled_def s2_def Let_def)
    show ?thesis
    proof (cases "nxt s2 \<ge> length items \<and> active s2 = 0")
      case True
      with ok have "pool_inv items limit mapper (settle (Resolved (results s2)) s2)"
        by (simp add: pool_inv_resolve)
      moreover from True have "(nxt s2 \<ge> length items \<and> active s2 = 0) = True" by simp
      with c have "on_settled items limit mapper s idx = settle (Resolved (results s2)) s2"
        by (simp only: if_True)
      ultimately show ?thesis by simp
    next
      case False
      from False have "(nxt s2 \<ge> length items \<and> active s2 = 0) = False" by simp
      with c have "on_settled items limit mapper s idx = launch items limit s2"
        by (simp only: if_False)
      moreover from ok have "pool_inv items limit mapper (launch items limit s2)"
        by (rule pool_ok_launch)
      ultimately show ?thesis by simp
    qed
  qed
qed

subsection \<open>Every schedule\<close>

lemma pool_ok_initial:
  assumes "0 \<le> limit"
  shows "pool_ok items limit mapper
           \<lparr>results = replicate (length items) None, nxt = 0, active = 0, inflight = [],
            outcome = Pending\<rparr>"
proof -
  define s0 :: "'b pool" where
    "s0 = \<lparr>results = replicate (length items) None, nxt = 0, active = 0, inflight = [],
            outcome = Pending\<rparr>"
  have fld: "results s0 = replicate (length items) None" "nxt s0 = 0" "active s0 = 0"
    "inflight s0 = []" "outcome s0 = Pending"
    by (simp_all add: s0_def)
  have fe: "failed s0 = {}" by (simp add: failed_def fld)
  have "pool_ok items limit mapper s0"
    unfolding pool_ok_def fe using assms by (auto simp: fld)
  then show ?thesis by (simp only: s0_def)
qed

lemma pool_inv_runLimited: "0 \<le> limit \<Longrightarrow> pool_inv items limit mapper (runLimited items limit)"
  unfolding runLimited_def by (rule pool_ok_launch) (rule pool_ok_initial)

lemma foldl_on_settled_inv:
  "pool_inv items limit mapper s \<Longrightarrow>
   pool_inv items limit mapper (foldl (on_settled items limit mapper) s sched)"
  by (induction sched arbitrary: s) (simp_all add: pool_inv_on_settled)

lemma pool_inv_run_schedule:
  "0 \<le> limit \<Longrightarrow> pool_inv items limit mapper (run_schedule items limit mapper sched)"
  unfolding run_schedule_def by (rule foldl_on_settled_inv) (rule pool_inv_runLimited)

lemma active_nonneg: "pool_ok items limit mapper s \<Longrightarrow> 0 \<le> active s"
  by (simp add: pool_ok_def)

lemma pool_live_launch:
  assumes ok: "pool_ok items limit mapper s"
    and open_work: "\<not> (length items \<le> nxt s \<and> active s = 0)"
  shows "pool_live items (launch items limit s)"
proof -
  have "\<not> (nxt (launch items limit s) = length items \<and> active (launch items limit s) = 0)"
  proof
    assume h: "nxt (launch items limit s) = length items \<and> active (launch items limit s) = 0"
    from active_nonneg [OF ok] h have "launch_count items limit s = 0" "active s = 0"
      by (simp_all add: launch_fields)
    with h have "nxt s = length items" by (simp add: launch_fields)
    with \<open>active s = 0\<close> open_work show False by simp
  qed
  then show ?thesis unfolding pool_live_def by blast
qed

lemma outcome_settle_not_pending: "out \<noteq> Pending \<Longrightarrow> outcome (settle out s) \<noteq> Pending"
  by (simp add: settle_def)

lemma pool_live_on_settled:
  assumes inv: "pool_inv items limit mapper s" and live: "pool_live items s"
  shows "pool_live items (on_settled items limit mapper s idx)"
proof (cases "idx \<in> set (inflight s)")
  case False
  with live show ?thesis by (simp add: on_settled_def)
next
  case True
  show ?thesis
  proof (cases "mapper (items ! idx) idx")
    case (Inl err)
    with True show ?thesis
      by (simp add: on_settled_def pool_live_def outcome_settle_not_pending)
  next
    case (Inr res)
    define s2 where "s2 = s\<lparr>inflight := removeAll idx (inflight s),
                     results := (results s)[idx := Some res], active := active s - 1\<rparr>"
    from pool_ok_success [OF inv True Inr s2_def] have ok: "pool_ok items limit mapper s2" by blast
    have c: "on_settled items limit mapper s idx =
             (if nxt s2 \<ge> length items \<and> active s2 = 0
              then settle (Resolved (results s2)) s2 else launch items limit s2)"
      using True Inr by (simp add: on_settled_def s2_def Let_def)
    show ?thesis
    proof (cases "nxt s2 \<ge> length items \<and> active s2 = 0")
      case True
      then have "(nxt s2 \<ge> length items \<and> active s2 = 0) = True" by simp
      with c have "on_settled items limit mapper s idx = settle (Resolved (results s2)) s2"
        by (simp only: if_True)
      then show ?thesis by (simp add: pool_live_def outcome_settle_not_pending)
    next
      case False
      then have "(nxt s2 \<ge> length items \<and> active s2 = 0) = False" by simp
      with c have "on_settled items limit mapper s idx = launch items limit s2"
        by (simp only: if_False)
      moreover from ok False have "pool_live items (launch items limit s2)"
        by (rule pool_live_launch)
      ultimately show ?thesis by simp
    qed
  qed
qed

lemma pool_live_runLimited: "0 \<le> limit \<Longrightarrow> pool_live items (runLimited items limit :: 'r pool)"
proof (cases "items = []")
  case True
  then show ?thesis by (simp add: pool_live_def)
next
  case False
  assume l: "0 \<le> limit"
  let ?s0 = "\<lparr>results = replicate (length items) None, nxt = 0, active = 0, inflight = [],
            outcome = Pending\<rparr> :: 'r pool"
  have ok: "pool_ok items limit (\<lambda>x k. Inl []) ?s0" using l by (rule pool_ok_initial)
  have "\<not> (length items \<le> nxt ?s0 \<and> active ?s0 = 0)" using False by simp
  with ok show ?thesis unfolding runLimited_def by (rule pool_live_launch)
qed

lemma foldl_on_settled_live:
  "pool_inv items limit mapper s \<Longrightarrow> pool_live items s \<Longrightarrow>
   pool_live items (foldl (on_settled items limit mapper) s sched)"
  by (induction sched arbitrary: s) (simp_all add: pool_inv_on_settled pool_live_on_settled)

lemma pool_live_run_schedule:
  "0 \<le> limit \<Longrightarrow> pool_live items (run_schedule items limit mapper sched)"
  unfolding run_schedule_def
  by (rule foldl_on_settled_live) (simp_all add: pool_inv_runLimited pool_live_runLimited)

lemma no_failure_failed_empty:
  assumes ok: "pool_ok items limit mapper s"
    and nofail: "\<forall>k<length items. \<not> isl (mapper (items ! k) k)"
  shows "failed s = {}"
proof (rule ccontr)
  assume "failed s \<noteq> {}"
  then obtain k where k: "k \<in> failed s" by blast
  with ok have "isl (mapper (items ! k) k)" unfolding pool_ok_def by blast
  moreover from k ok have "k < length items" unfolding pool_ok_def failed_def by auto
  ultimately show False using nofail by blast
qed

text \<open>
  Claim C5. For every item list, every integer limit of at least 1, every mapper and
  every order in which the started calls settle, the pool is at each moment in a state
  where at most \<open>limit\<close> calls are in flight; while an item is still waiting all
  \<open>limit\<close> slots are taken, so a freed slot is refilled at once by the next item, and
  when no call rejects these slots are exactly the calls in flight and a pending pool
  with items always has a call in flight; the result stored at index \<open>k\<close> is the
  mapper's result for \<open>items[k]\<close>; and when the promise resolves, its array has one
  entry per item and entry \<open>k\<close> is the mapper's result for \<open>items[k]\<close>.
\<close>

theorem runLimited_bounded_ordered:
  fixes items :: "'a list" and mapper :: "'a \<Rightarrow> nat \<Rightarrow> string + 'r"
    and limit :: int and sched :: "nat list"
  assumes limit: "1 \<le> limit"
  defines "s \<equiv> run_schedule items limit mapper sched"
  shows "int (length (inflight s)) \<le> limit \<and>
    (nxt s < length items \<longrightarrow> active s = limit) \<and>
    ((\<forall>k<length items. \<not> isl (mapper (items ! k) k)) \<longrightarrow>
       active s = int (length (inflight s)) \<and>
       (items \<noteq> [] \<and> outcome s = Pending \<longrightarrow> inflight s \<noteq> [])) \<and>
    (\<forall>k r. k < length items \<and> results s ! k = Some r \<longrightarrow> mapper (items ! k) k = Inr r) \<and>
    (\<forall>rs. outcome s = Resolved rs \<longrightarrow>
       length rs = length items \<and>
       (\<forall>k<length items. \<exists>r. rs ! k = Some r \<and> mapper (items ! k) k = Inr r))"
proof -
  from limit have l0: "0 \<le> limit" by simp
  have inv: "pool_inv items limit mapper s"
    unfolding s_def using l0 by (rule pool_inv_run_schedule)
  have live: "pool_live items s"
    unfolding s_def using l0 by (rule pool_live_run_schedule)
  from inv have ok: "pool_ok items limit mapper s" by (simp add: pool_inv_def)
  from ok have b: "length (results s) = length items"
    and e: "active s = int (length (inflight s)) + int (card (failed s))"
    and f: "active s \<le> limit"
    and h: "\<forall>k r. k < length items \<and> results s ! k = Some r \<longrightarrow> mapper (items ! k) k = Inr r"
    and j: "\<forall>rs. outcome s = Resolved rs \<longrightarrow>
        rs = results s \<and> inflight s = [] \<and> nxt s = length items \<and>
        (\<forall>k<length items. results s ! k \<noteq> None)"
    unfolding pool_ok_def by blast+
  from inv have g: "nxt s < length items \<longrightarrow> limit \<le> active s" by (simp add: pool_inv_def)
  have c1: "int (length (inflight s)) \<le> limit" using e f by linarith
  have c2: "nxt s < length items \<longrightarrow> active s = limit" using g f by auto
  have c3: "(\<forall>k<length items. \<not> isl (mapper (items ! k) k)) \<longrightarrow>
       active s = int (length (inflight s)) \<and>
       (items \<noteq> [] \<and> outcome s = Pending \<longrightarrow> inflight s \<noteq> [])"
  proof (intro impI conjI)
    assume nofail: "\<forall>k<length items. \<not> isl (mapper (items ! k) k)"
    from no_failure_failed_empty [OF ok nofail] e
    show act: "active s = int (length (inflight s))" by simp
    assume p: "items \<noteq> [] \<and> outcome s = Pending"
    show "inflight s \<noteq> []"
    proof
      assume "inflight s = []"
      with act have a0: "active s = 0" by simp
      with g limit have "\<not> nxt s < length items" by auto
      moreover from ok have "nxt s \<le> length items" by (simp add: pool_ok_def)
      ultimately have "nxt s = length items" by simp
      with a0 p live show False by (simp add: pool_live_def)
    qed
  qed
  have c5: "\<forall>rs. outcome s = Resolved rs \<longrightarrow>
       length rs = length items \<and>
       (\<forall>k<length items. \<exists>r. rs ! k = Some r \<and> mapper (items ! k) k = Inr r)"
  proof (intro allI impI conjI)
    fix rs assume o: "outcome s = Resolved rs"
    with j have rs: "rs = results s" and full: "\<forall>k<length items. results s ! k \<noteq> None" by blast+
    from rs b show "length rs = length items" by simp
    fix k assume k: "k < length items"
    with full obtain r where r: "results s ! k = Some r" by auto
    with k h have "mapper (items ! k) k = Inr r" by blast
    with r rs show "\<exists>r. rs ! k = Some r \<and> mapper (items ! k) k = Inr r" by blast
  qed
  from c1 c2 c3 h c5 show ?thesis by blast
qed

theorem runLimited_witness:
  "int (length (inflight (run_schedule [10, 20, 30, 40, 50] 2 double [1, 0]))) \<le> 2 \<and>
   active (run_schedule [10, 20, 30, 40, 50] 2 double [1, 0]) = 2 \<and>
   outcome (run_schedule [10, 20, 30, 40, 50] 2 double [1, 0, 3, 2, 4])
     = Resolved [Some 20, Some 40, Some 60, Some 80, Some 100]"
proof -
  have l: "(1::int) \<le> 2" by simp
  have n: "nxt (run_schedule [10, 20, 30, 40, 50::nat] 2 double [1, 0]) < length [10, 20, 30, 40, 50::nat]"
    by code_simp
  note t = runLimited_bounded_ordered
             [where limit = 2 and items = "[10, 20, 30, 40, 50::nat]" and mapper = double
                and sched = "[1, 0]", OF l]
  from t have a: "int (length (inflight (run_schedule [10, 20, 30, 40, 50] 2 double [1, 0]))) \<le> 2"
    by (rule conjunct1)
  from t n have b: "active (run_schedule [10, 20, 30, 40, 50] 2 double [1, 0]) = 2"
    by blast
  have c: "outcome (run_schedule [10, 20, 30, 40, 50] 2 double [1, 0, 3, 2, 4])
     = Resolved [Some 20, Some 40, Some 60, Some 80, Some 100]"
    by code_simp
  from a b c show ?thesis by (intro conjI)
qed

lemma runLimited_empty:
  "runLimited [] limit =
     \<lparr>results = [], nxt = 0, active = 0, inflight = [], outcome = Pending\<rparr>"
  unfolding runLimited_def by (subst launch.simps) simp

lemma foldl_on_settled_idle:
  "inflight s = [] \<Longrightarrow> foldl (on_settled items limit mapper) s sched = s"
  by (induction sched) (simp_all add: on_settled_def)

lemma run_schedule_empty:
  "run_schedule [] limit mapper sched =
     \<lparr>results = [], nxt = 0, active = 0, inflight = [], outcome = Pending\<rparr>"
  unfolding run_schedule_def by (simp add: foldl_on_settled_idle runLimited_empty)

text \<open>
  Claim C10. With an empty item list the loop of \<open>launch\<close> starts nothing, no callback
  ever runs, and the promise stays pending in every state the pool can reach, whatever
  the limit and the mapper: the pool never resolves and never rejects. So the batch
  conversion of an empty array of images and the page fan-out of a document of no
  pages wait for ever.
\<close>

theorem runLimited_empty_never_settles:
  "run_schedule [] limit mapper sched =
     \<lparr>results = [], nxt = 0, active = 0, inflight = [], outcome = Pending\<rparr> \<and>
   outcome (run_schedule [] limit mapper sched) = Pending \<and>
   inflight (run_schedule [] limit mapper sched) = [] \<and>
   outcome (convertImage_batch [] concurrency imageMapper sched) = Pending \<and>
   outcome (pdfToImages_pages 0 limit pageMapper sched) = Pending"
  by (simp add: run_schedule_empty runLimited_empty convertImage_batch_def pdfToImages_pages_def)

end
